theory Spec2Isabelle
  imports Complex_Main
begin

section \<open>Data model\<close>

text \<open>
  Numbers (sympy expressions, mpmath \<open>mpf\<close> values, IEEE doubles) are modelled by the real
  number they denote. Everything the program calls in sympy, mpmath, numpy and scipy is a
  field of the record \<open>libs\<close>: the program is verified for any implementation of these
  calls, and a theorem that needs a property of a library call states it as a hypothesis.
\<close>

datatype error = AssertionError | IndexError | KeyError | ValueError | LibraryError

text \<open>A coefficient sequence is a Python list or a numpy array; the numpy backend tells
  them apart with \<open>isinstance\<close>.\<close>

datatype seq = PyList "real list" | NdArray "real list"

fun elems :: "seq \<Rightarrow> real list" where
  "elems (PyList xs) = xs"
| "elems (NdArray xs) = xs"

fun isinstance_ndarray :: "seq \<Rightarrow> bool" where
  "isinstance_ndarray (PyList xs) = False"
| "isinstance_ndarray (NdArray xs) = True"

fun with_elems :: "seq \<Rightarrow> real list \<Rightarrow> seq" where
  "with_elems (PyList _) ys = PyList ys"
| "with_elems (NdArray _) ys = NdArray ys"

text \<open>The process-wide state of mpmath's context \<open>mp\<close>: its decimal precision.\<close>

record mp_context =
  dps :: nat

record libs =
  isinstance_Rational :: "real \<Rightarrow> bool"
  sympy_sqrt :: "real \<Rightarrow> real"
  sympy_pi :: real
  eigenvects :: "real list list \<Rightarrow> (real \<times> nat \<times> real list list) list"
  sympy_simplify :: "real \<Rightarrow> real"
  sympy_N :: "real \<Rightarrow> nat \<Rightarrow> real"
  sympy_Float :: "real \<Rightarrow> real"
  mp_sqrt :: "nat \<Rightarrow> real \<Rightarrow> real"
  mp_power :: "nat \<Rightarrow> real \<Rightarrow> nat \<Rightarrow> real"
  tridiag_eigen :: "nat \<Rightarrow> real list \<Rightarrow> real list \<Rightarrow> real list \<Rightarrow> error + (real list \<times> real list)"
  numpy_sqrt :: "real \<Rightarrow> real"
  numpy_pi :: real
  eig_banded :: "real list list \<Rightarrow> error + (real list \<times> real list list)"
  scipy_real :: "real \<Rightarrow> real"
  scipy_power :: "real \<Rightarrow> nat \<Rightarrow> real"
  dtype_is_sympy_Basic :: "real list list \<Rightarrow> bool"

section \<open>schemes.py\<close>

subsection \<open>\<open>_sympy_tridiag\<close>\<close>

text \<open>The two loops of \<open>_sympy_tridiag\<close>, each a fold over its index range that updates
  the list of rows.\<close>

definition set_diag :: "real list \<Rightarrow> nat \<Rightarrow> real list list \<Rightarrow> real list list" where
  "set_diag a i A = A[i := (A ! i)[i := a ! i]]"

definition set_offdiag :: "real list \<Rightarrow> nat \<Rightarrow> real list list \<Rightarrow> real list list" where
  "set_offdiag b i A =
     (let A1 = A[i := (A ! i)[i + 1 := b ! (i + 1)]]
      in A1[i + 1 := (A1 ! (i + 1))[i := b ! (i + 1)]])"

definition sympy_tridiag :: "real list \<Rightarrow> real list \<Rightarrow> error + real list list" where
  "sympy_tridiag a b =
     (let n = length a in
      if n \<noteq> length b then Inl AssertionError
      else Inr (fold (set_offdiag b) [0..<n - 1]
                  (fold (set_diag a) [0..<n] (replicate n (replicate n 0)))))"

subsection \<open>\<open>_gauss_from_coefficients_sympy\<close>\<close>

definition norm2 :: "real list \<Rightarrow> real" where
  "norm2 vec = sum_list (map (\<lambda>v. v ^ 2) vec)"

text \<open>The loop over \<open>A.eigenvects()\<close>: it stops at the first failing assertion.\<close>

fun collect_items :: "libs \<Rightarrow> real list \<Rightarrow> (real \<times> nat \<times> real list list) list
    \<Rightarrow> error + (real \<times> real) list" where
  "collect_items L beta [] = Inr []"
| "collect_items L beta ((val, multiplicity, vec) # rest) =
     (if multiplicity \<noteq> 1 then Inl AssertionError
      else if length vec \<noteq> 1 then Inl AssertionError
      else case (beta, hd vec) of
          ([], _) \<Rightarrow> Inl IndexError
        | (_, []) \<Rightarrow> Inl IndexError
        | (b0 # _, v0 # vs) \<Rightarrow>
            (case collect_items L beta rest of
               Inl e \<Rightarrow> Inl e
             | Inr xw \<Rightarrow>
                 Inr ((val, sympy_simplify L (b0 * v0 ^ 2 / norm2 (v0 # vs))) # xw)))"

definition gauss_from_coefficients_sympy :: "libs \<Rightarrow> seq \<Rightarrow> seq
    \<Rightarrow> error + (real list \<times> real list)" where
  "gauss_from_coefficients_sympy L alpha beta =
     (case elems alpha of
        [] \<Rightarrow> Inl IndexError
      | a0 # _ \<Rightarrow>
          if \<not> isinstance_Rational L a0 then Inl AssertionError
          else
            (case sympy_tridiag (elems alpha) (map (sympy_sqrt L) (elems beta)) of
               Inl e \<Rightarrow> Inl e
             | Inr A \<Rightarrow>
                 (case collect_items L (elems beta) (eigenvects L A) of
                    Inl e \<Rightarrow> Inl e
                  | Inr xw \<Rightarrow>
                      (let x = map fst xw; w = map snd xw;
                           order = sort_key (\<lambda>i. x ! i) [0..<length x]
                       in Inr (map (\<lambda>i. x ! i) order, map (\<lambda>i. w ! i) order)))))"

subsection \<open>\<open>_gauss_from_coefficients_mpmath\<close>\<close>

text \<open>The loop \<open>b[i] = mp.sqrt(beta[i+1])\<close> for \<open>i < n - 1\<close> over the zero vector of
  length \<open>n\<close>; reading \<open>beta[i+1]\<close> out of range raises.\<close>

definition offdiag_vector :: "libs \<Rightarrow> nat \<Rightarrow> real list \<Rightarrow> nat \<Rightarrow> error + real list" where
  "offdiag_vector L p beta n =
     (if 1 < n \<and> length beta < n then Inl IndexError
      else Inr (fold (\<lambda>i b. b[i := mp_sqrt L p (beta ! (i + 1))]) [0..<n - 1] (replicate n 0)))"

definition gauss_from_coefficients_mpmath :: "libs \<Rightarrow> seq \<Rightarrow> seq \<Rightarrow> nat \<Rightarrow> mp_context
    \<Rightarrow> (error + (real list \<times> real list)) \<times> mp_context" where
  "gauss_from_coefficients_mpmath L alpha beta decimal_places mp =
     (let mp' = mp\<lparr>dps := decimal_places\<rparr>;
          n = length (elems alpha)
      in case offdiag_vector L (dps mp') (elems beta) n of
           Inl e \<Rightarrow> (Inl e, mp')
         | Inr b \<Rightarrow>
             if n = 0 then (Inl IndexError, mp')
             else
               (let z = (replicate n 0)[0 := 1]; d = elems alpha
                in case tridiag_eigen L (dps mp') d b z of
                     Inl e \<Rightarrow> (Inl e, mp')
                   | Inr (d', z') \<Rightarrow>
                       (case (z', elems beta) of
                          (_ # _, []) \<Rightarrow> (Inl IndexError, mp')
                        | _ \<Rightarrow>
                            (Inr (map (sympy_Float L) d',
                                  map (\<lambda>ww. hd (elems beta) * mp_power L (dps mp') ww 2) z'),
                             mp'))))"

subsection \<open>\<open>_gauss_from_coefficients_numpy\<close>\<close>

definition gauss_from_coefficients_numpy :: "libs \<Rightarrow> seq \<Rightarrow> seq
    \<Rightarrow> error + (real list \<times> real list)" where
  "gauss_from_coefficients_numpy L alpha beta =
     (if \<not> isinstance_ndarray alpha then Inl AssertionError
      else if \<not> isinstance_ndarray beta then Inl AssertionError
      else if length (elems beta) \<noteq> length (elems alpha) then Inl ValueError
      else
        (case eig_banded L [map (numpy_sqrt L) (elems beta), elems alpha] of
           Inl e \<Rightarrow> Inl e
         | Inr (x, V) \<Rightarrow>
             (case (elems beta, V) of
                ([], _) \<Rightarrow> Inl IndexError
              | (_, []) \<Rightarrow> Inl IndexError
              | (b0 # _, V0 # _) \<Rightarrow>
                  Inr (x, map (\<lambda>v. b0 * scipy_real L (scipy_power L v 2)) V0))))"

subsection \<open>\<open>custom\<close>\<close>

definition custom :: "libs \<Rightarrow> seq \<Rightarrow> seq \<Rightarrow> string \<Rightarrow> nat \<Rightarrow> mp_context
    \<Rightarrow> (error + (real list \<times> real list)) \<times> mp_context" where
  "custom L alpha beta mode decimal_places mp =
     (if mode = ''sympy'' then (gauss_from_coefficients_sympy L alpha beta, mp)
      else if mode = ''mpmath'' then gauss_from_coefficients_mpmath L alpha beta decimal_places mp
      else if mode \<noteq> ''numpy'' then (Inl AssertionError, mp)
      else (gauss_from_coefficients_numpy L alpha beta, mp))"

text \<open>\<open>custom(alpha, beta)\<close> with the defaults \<open>mode='mpmath', decimal_places=32\<close>.\<close>

definition custom_default :: "libs \<Rightarrow> seq \<Rightarrow> seq \<Rightarrow> mp_context
    \<Rightarrow> (error + (real list \<times> real list)) \<times> mp_context" where
  "custom_default L alpha beta mp = custom L alpha beta ''mpmath'' 32 mp"

subsection \<open>The family wrappers\<close>

text \<open>The module \<open>recurrence_coefficients\<close> is imported by \<open>schemes.py\<close> and is not
  among the sources: its functions are the fields of \<open>rc_module\<close>.\<close>

record rc_module =
  rc_legendre :: "nat \<Rightarrow> string \<Rightarrow> seq \<times> seq"
  rc_jacobi :: "nat \<Rightarrow> real \<Rightarrow> real \<Rightarrow> string \<Rightarrow> seq \<times> seq"
  rc_chebyshev1 :: "nat \<Rightarrow> seq \<times> seq"
  rc_chebyshev2 :: "nat \<Rightarrow> seq \<times> seq"
  rc_laguerre :: "nat \<Rightarrow> seq \<times> seq"
  rc_laguerre_generalized :: "nat \<Rightarrow> real \<Rightarrow> seq \<times> seq"
  rc_hermite :: "nat \<Rightarrow> seq \<times> seq"

text \<open>The statement \<open>beta[0] = sympy.N(beta[0], decimal_places)\<close>; it raises on an empty
  sequence.\<close>

definition round_beta0 :: "libs \<Rightarrow> seq \<Rightarrow> nat \<Rightarrow> error + seq" where
  "round_beta0 L beta decimal_places =
     (case elems beta of
        [] \<Rightarrow> Inl IndexError
      | b0 # bs \<Rightarrow> Inr (with_elems beta (sympy_N L b0 decimal_places # bs)))"

definition legendre :: "rc_module \<Rightarrow> libs \<Rightarrow> nat \<Rightarrow> nat \<Rightarrow> mp_context
    \<Rightarrow> (error + (real list \<times> real list)) \<times> mp_context" where
  "legendre R L n decimal_places mp =
     (case rc_legendre R n ''sympy'' of
        (alpha, beta) \<Rightarrow> custom L alpha beta ''mpmath'' decimal_places mp)"

definition jacobi :: "rc_module \<Rightarrow> libs \<Rightarrow> real \<Rightarrow> real \<Rightarrow> nat \<Rightarrow> nat \<Rightarrow> mp_context
    \<Rightarrow> (error + (real list \<times> real list)) \<times> mp_context" where
  "jacobi R L a b n decimal_places mp =
     (case rc_jacobi R n a b ''sympy'' of
        (alpha, beta) \<Rightarrow> custom L alpha beta ''mpmath'' decimal_places mp)"

definition chebyshev1 :: "rc_module \<Rightarrow> libs \<Rightarrow> nat \<Rightarrow> nat \<Rightarrow> mp_context
    \<Rightarrow> (error + (real list \<times> real list)) \<times> mp_context" where
  "chebyshev1 R L n decimal_places mp =
     (case rc_chebyshev1 R n of
        (alpha, beta) \<Rightarrow>
          (case round_beta0 L beta decimal_places of
             Inl e \<Rightarrow> (Inl e, mp)
           | Inr beta' \<Rightarrow> custom L alpha beta' ''mpmath'' decimal_places mp))"

definition chebyshev2 :: "rc_module \<Rightarrow> libs \<Rightarrow> nat \<Rightarrow> nat \<Rightarrow> mp_context
    \<Rightarrow> (error + (real list \<times> real list)) \<times> mp_context" where
  "chebyshev2 R L n decimal_places mp =
     (case rc_chebyshev2 R n of
        (alpha, beta) \<Rightarrow>
          (case round_beta0 L beta decimal_places of
             Inl e \<Rightarrow> (Inl e, mp)
           | Inr beta' \<Rightarrow> custom L alpha beta' ''mpmath'' decimal_places mp))"

definition laguerre :: "rc_module \<Rightarrow> libs \<Rightarrow> nat \<Rightarrow> nat \<Rightarrow> mp_context
    \<Rightarrow> (error + (real list \<times> real list)) \<times> mp_context" where
  "laguerre R L n decimal_places mp =
     (case rc_laguerre R n of
        (alpha, beta) \<Rightarrow> custom L alpha beta ''mpmath'' decimal_places mp)"

definition laguerre_generalized :: "rc_module \<Rightarrow> libs \<Rightarrow> nat \<Rightarrow> real \<Rightarrow> nat \<Rightarrow> mp_context
    \<Rightarrow> (error + (real list \<times> real list)) \<times> mp_context" where
  "laguerre_generalized R L n a decimal_places mp =
     (case rc_laguerre_generalized R n a of
        (alpha, beta) \<Rightarrow> custom L alpha beta ''mpmath'' decimal_places mp)"

definition hermite :: "rc_module \<Rightarrow> libs \<Rightarrow> nat \<Rightarrow> nat \<Rightarrow> mp_context
    \<Rightarrow> (error + (real list \<times> real list)) \<times> mp_context" where
  "hermite R L n decimal_places mp =
     (case rc_hermite R n of
        (alpha, beta) \<Rightarrow>
          (case round_beta0 L beta decimal_places of
             Inl e \<Rightarrow> (Inl e, mp)
           | Inr beta' \<Rightarrow> custom L alpha beta' ''mpmath'' decimal_places mp))"

section \<open>c1/gegenbauer.py\<close>

text \<open>
  The module \<open>c1.jacobi\<close> is not among the sources. A class of it is a parameter: its
  constructor \<open>new\<close> (what \<open>__init__\<close> makes of the arguments) and the \<open>behaviour\<close> of an
  instance, which stands for every method and attribute of the class. The argument
  \<open>symbolic\<close> is the string \<open>"auto"\<close> or a truth value.
\<close>

datatype symbolic = auto | given bool

record ('args, 'obj, 'beh) py_class =
  new :: "'args \<Rightarrow> 'obj"
  behaviour :: "'obj \<Rightarrow> 'beh"

text \<open>\<open>class Eval(jacobi.Eval)\<close> overrides \<open>__init__\<close> and inherits the rest.\<close>

definition gegenbauer_Eval ::
  "(real list \<times> string \<times> real \<times> real \<times> symbolic, 'obj, 'beh) py_class
    \<Rightarrow> (real list \<times> string \<times> real \<times> symbolic, 'obj, 'beh) py_class" where
  "gegenbauer_Eval jacobi_Eval =
     \<lparr>new = (\<lambda>(X, scaling, lmbda, symbolic). new jacobi_Eval (X, scaling, lmbda, lmbda, symbolic)),
      behaviour = behaviour jacobi_Eval\<rparr>"

text \<open>\<open>class RecurrenceCoefficients(jacobi.RecurrenceCoefficients)\<close>, likewise.\<close>

definition gegenbauer_RecurrenceCoefficients ::
  "(string \<times> real \<times> real \<times> symbolic, 'obj, 'beh) py_class
    \<Rightarrow> (string \<times> real \<times> symbolic, 'obj, 'beh) py_class" where
  "gegenbauer_RecurrenceCoefficients jacobi_RecurrenceCoefficients =
     \<lparr>new = (\<lambda>(scaling, lmbda, symbolic).
              new jacobi_RecurrenceCoefficients (scaling, lmbda, lmbda, symbolic)),
      behaviour = behaviour jacobi_RecurrenceCoefficients\<rparr>"

section \<open>enr2/main.py\<close>

text \<open>
  \<open>helpers.ProductEval\<close>, \<open>helpers.ProductEvalWithDegrees\<close> and the two classes of
  \<open>e1r2.main\<close> are not among the sources: the base class's \<open>__init__\<close> is the parameter
  \<open>base_init\<close>, which receives the arguments of the \<open>super().__init__\<close> call, and the two
  recurrence-coefficient classes are the parameters \<open>RCProbabilistNormal\<close> and
  \<open>RCPhysicistNormal\<close>.
\<close>

record 'rc product_args =
  arg_rc :: 'rc
  arg_int_1 :: real
  arg_X :: "real list list"
  arg_symbolic :: bool

definition resolve_symbolic :: "libs \<Rightarrow> real list list \<Rightarrow> symbolic \<Rightarrow> bool" where
  "resolve_symbolic L X symbolic =
     (case symbolic of auto \<Rightarrow> dtype_is_sympy_Basic L X | given b \<Rightarrow> b)"

text \<open>The dictionary lookup \<open>{"probabilists": ..., "physicists": ...}[standardization]\<close>.\<close>

definition rc_class :: "(bool \<Rightarrow> 'rc) \<Rightarrow> (bool \<Rightarrow> 'rc) \<Rightarrow> string \<Rightarrow> error + (bool \<Rightarrow> 'rc)" where
  "rc_class RCProbabilistNormal RCPhysicistNormal standardization =
     (if standardization = ''probabilists'' then Inr RCProbabilistNormal
      else if standardization = ''physicists'' then Inr RCPhysicistNormal
      else Inl KeyError)"

definition enr2_Eval :: "libs \<Rightarrow> ('rc product_args \<Rightarrow> 'obj) \<Rightarrow> (bool \<Rightarrow> 'rc) \<Rightarrow> (bool \<Rightarrow> 'rc)
    \<Rightarrow> real list list \<Rightarrow> string \<Rightarrow> symbolic \<Rightarrow> error + 'obj" where
  "enr2_Eval L base_init RCProbabilistNormal RCPhysicistNormal X standardization symbolic =
     (let symbolic' = resolve_symbolic L X symbolic in
      case rc_class RCProbabilistNormal RCPhysicistNormal standardization of
        Inl e \<Rightarrow> Inl e
      | Inr cls \<Rightarrow>
          (let rc = cls symbolic';
               sqrt' = (if symbolic' then sympy_sqrt L else numpy_sqrt L);
               pi' = (if symbolic' then sympy_pi L else numpy_pi L);
               int_1 = sqrt' pi'
           in Inr (base_init \<lparr>arg_rc = rc, arg_int_1 = int_1, arg_X = X,
                              arg_symbolic = symbolic'\<rparr>)))"

definition enr2_EvalWithDegrees :: "libs \<Rightarrow> ('rc product_args \<Rightarrow> 'obj) \<Rightarrow> (bool \<Rightarrow> 'rc)
    \<Rightarrow> (bool \<Rightarrow> 'rc) \<Rightarrow> real list list \<Rightarrow> string \<Rightarrow> symbolic \<Rightarrow> error + 'obj" where
  "enr2_EvalWithDegrees L base_init RCProbabilistNormal RCPhysicistNormal X standardization symbolic =
     (let symbolic' = resolve_symbolic L X symbolic in
      case rc_class RCProbabilistNormal RCPhysicistNormal standardization of
        Inl e \<Rightarrow> Inl e
      | Inr cls \<Rightarrow>
          (let rc = cls symbolic';
               sqrt' = (if symbolic' then sympy_sqrt L else numpy_sqrt L);
               pi' = (if symbolic' then sympy_pi L else numpy_pi L);
               int_1 = sqrt' pi'
           in Inr (base_init \<lparr>arg_rc = rc, arg_int_1 = int_1, arg_X = X,
                              arg_symbolic = symbolic'\<rparr>)))"

section \<open>A concrete library\<close>

text \<open>
  An instance of the library calls used where a statement is evaluated on a concrete
  input: its scalar functions are exact, and its three eigen-solvers know the
  eigen-decomposition of a few small matrices. The matrix with rows \<open>[9, 12]\<close> and
  \<open>[12, 16]\<close> has the eigenvalues 0 and 25, with the orthonormal eigenvectors
  \<open>(-4/5, 3/5)\<close> and \<open>(3/5, 4/5)\<close>.
\<close>

definition table_eigenvects :: "real list list \<Rightarrow> (real \<times> nat \<times> real list list) list" where
  "table_eigenvects A =
     (if A = [[9, 12], [12, 16]] then [(25, 1, [[3, 4]]), (0, 1, [[-4, 3]])]
      else if A = [[1, 0], [0, 1]] then [(1, 2, [[1, 0], [0, 1]])]
      else if A = [[sqrt 2]] then [(sqrt 2, 1, [[1]])]
      else if A = [[0]] then [(0, 1, [[1]])]
      else [])"

definition table_tridiag_eigen :: "real list \<Rightarrow> real list \<Rightarrow> real list
    \<Rightarrow> error + (real list \<times> real list)" where
  "table_tridiag_eigen d e z =
     (if d = [9, 16] \<and> e = [12, 0] \<and> z = [1, 0] then Inr ([0, 25], [-4/5, 3/5])
      else if d = [1, 1] \<and> e = [0, 0] \<and> z = [1, 0] then Inr ([1, 1], [1, 0])
      else if d = [0] \<and> e = [0] \<and> z = [1] then Inr ([0], [1])
      else Inl LibraryError)"

definition table_eig_banded :: "real list list \<Rightarrow> error + (real list \<times> real list list)" where
  "table_eig_banded B =
     (if tl (hd B) = [12] \<and> tl B = [[9, 16]] then Inr ([0, 25], [[-4/5, 3/5], [3/5, 4/5]])
      else if tl (hd B) = [] \<and> tl B = [[0]] then Inr ([0], [[1]])
      else Inl LibraryError)"

definition exact_libs :: libs where
  "exact_libs =
     \<lparr>isinstance_Rational = (\<lambda>x. x \<in> \<rat>),
      sympy_sqrt = sqrt,
      sympy_pi = pi,
      eigenvects = table_eigenvects,
      sympy_simplify = (\<lambda>x. x),
      sympy_N = (\<lambda>x p. x),
      sympy_Float = (\<lambda>x. x),
      mp_sqrt = (\<lambda>p. sqrt),
      mp_power = (\<lambda>p x k. x ^ k),
      tridiag_eigen = (\<lambda>p. table_tridiag_eigen),
      numpy_sqrt = sqrt,
      numpy_pi = pi,
      eig_banded = table_eig_banded,
      scipy_real = (\<lambda>x. x),
      scipy_power = (\<lambda>x k. x ^ k),
      dtype_is_sympy_Basic = (\<lambda>X. False)\<rparr>"

text \<open>A coefficient provider that returns the same two-term coefficients for every
  family, and a library whose \<open>sympy.N\<close> truncates to the given number of decimals.\<close>

definition table_rc :: rc_module where
  "table_rc =
     \<lparr>rc_legendre = (\<lambda>n mode. (PyList [9, 16], PyList [1/3, 144])),
      rc_jacobi = (\<lambda>n a b mode. (PyList [9, 16], PyList [1/3, 144])),
      rc_chebyshev1 = (\<lambda>n. (PyList [9, 16], PyList [1/3, 144])),
      rc_chebyshev2 = (\<lambda>n. (PyList [9, 16], PyList [1/3, 144])),
      rc_laguerre = (\<lambda>n. (PyList [9, 16], PyList [1/3, 144])),
      rc_laguerre_generalized = (\<lambda>n a. (PyList [9, 16], PyList [1/3, 144])),
      rc_hermite = (\<lambda>n. (PyList [9, 16], PyList [1/3, 144]))\<rparr>"

definition truncating_libs :: libs where
  "truncating_libs = exact_libs\<lparr>sympy_N := (\<lambda>x p. real_of_int \<lfloor>x * 10 ^ p\<rfloor> / 10 ^ p)\<rparr>"

section \<open>The Jacobi matrix and the solvers' contracts\<close>

text \<open>
  The Jacobi matrix as the specification words it: the \<open>n\<close> by \<open>n\<close> symmetric tridiagonal
  matrix with diagonal \<open>alpha[k]\<close> and off-diagonal \<open>sqrt(beta[k])\<close>, \<open>k \<ge> 1\<close>. The square
  root is the backend's own (\<open>sympy.sqrt\<close>, \<open>mp.sqrt\<close> or \<open>numpy.sqrt\<close>), the argument \<open>sq\<close>.
\<close>

definition Jacobi_matrix :: "(real \<Rightarrow> real) \<Rightarrow> real list \<Rightarrow> real list \<Rightarrow> real list list" where
  "Jacobi_matrix sq alpha beta =
     map (\<lambda>i. map (\<lambda>j. if i = j then alpha ! i
                        else if j = i + 1 then sq (beta ! j)
                        else if i = j + 1 then sq (beta ! i)
                        else 0) [0..<length alpha]) [0..<length alpha]"



subsection \<open>Vectors, eigenvectors\<close>

definition dot :: "real list \<Rightarrow> real list \<Rightarrow> real" where
  "dot u v = sum_list (map2 (*) u v)"

definition mat_vec :: "real list list \<Rightarrow> real list \<Rightarrow> real list" where
  "mat_vec A v = map (\<lambda>row. dot row v) A"

definition col :: "real list list \<Rightarrow> nat \<Rightarrow> real list" where
  "col V j = map (\<lambda>row. row ! j) V"

text \<open>\<open>v\<close> is an eigenvector of the square matrix \<open>A\<close> for the eigenvalue \<open>lam\<close>.\<close>

definition eigenvector :: "real list list \<Rightarrow> real \<Rightarrow> real list \<Rightarrow> bool" where
  "eigenvector A lam v =
     (length v = length A \<and> (\<exists>c \<in> set v. c \<noteq> 0) \<and> mat_vec A v = map ((*) lam) v)"

definition eigenvalues :: "real list list \<Rightarrow> real set" where
  "eigenvalues A = {lam. \<exists>v. eigenvector A lam v}"

text \<open>The inner product of the first \<open>n\<close> components of two sequences.\<close>

definition ip :: "nat \<Rightarrow> (nat \<Rightarrow> real) \<Rightarrow> (nat \<Rightarrow> real) \<Rightarrow> real" where
  "ip n a b = (\<Sum>k<n. a k * b k)"

definition square :: "real list list \<Rightarrow> bool" where
  "square A = (\<forall>row \<in> set A. length row = length A)"

definition symmetric :: "real list list \<Rightarrow> bool" where
  "symmetric A = (\<forall>i<length A. \<forall>j<length A. A ! i ! j = A ! j ! i)"

subsection \<open>What a correct eigen-solver returns\<close>

text \<open>
  \<open>x\<close> and the columns of \<open>V\<close> are an orthonormal eigen-decomposition of \<open>A\<close>, eigenvalues
  ascending: what mpmath's \<open>tridiag_eigen\<close> and scipy's \<open>eig_banded\<close> document as their
  result.
\<close>

definition orthonormal_eigensystem :: "real list list \<Rightarrow> real list \<Rightarrow> real list list \<Rightarrow> bool" where
  "orthonormal_eigensystem A x V =
     (length x = length A \<and> length V = length A \<and> (\<forall>row \<in> set V. length row = length A)
      \<and> sorted x
      \<and> (\<forall>j<length A. eigenvector A (x ! j) (col V j))
      \<and> (\<forall>j<length A. \<forall>k<length A. dot (col V j) (col V k) = (if j = k then 1 else 0)))"

text \<open>The vectors of \<open>vs\<close>, of \<open>n\<close> components each, are linearly independent.\<close>

definition independent_vectors :: "nat \<Rightarrow> real list list \<Rightarrow> bool" where
  "independent_vectors n vs =
     (\<forall>c :: nat \<Rightarrow> real. (\<forall>k<n. (\<Sum>i<length vs. c i * vs ! i ! k) = 0) \<longrightarrow> (\<forall>i<length vs. c i = 0))"

text \<open>
  sympy's \<open>eigenvects()\<close> on a symmetric matrix: one item per distinct eigenvalue, with
  its multiplicity and a basis of its eigenspace of that many vectors; the
  multiplicities add up to the size of the matrix.
\<close>

definition eigenvects_spec :: "real list list \<Rightarrow> (real \<times> nat \<times> real list list) list \<Rightarrow> bool" where
  "eigenvects_spec A items =
     (distinct (map fst items)
      \<and> sum_list (map (\<lambda>item. fst (snd item)) items) = length A
      \<and> (\<forall>item \<in> set items. 1 \<le> fst (snd item)
            \<and> length (snd (snd item)) = fst (snd item)
            \<and> (\<forall>v \<in> set (snd (snd item)). eigenvector A (fst item) v)
            \<and> independent_vectors (length A) (snd (snd item))))"

text \<open>The solver call of the exact backend returns what a correct solver returns.\<close>

definition sympy_solver_ok :: "libs \<Rightarrow> real list \<Rightarrow> real list \<Rightarrow> bool" where
  "sympy_solver_ok L alpha beta =
     eigenvects_spec (Jacobi_matrix (sympy_sqrt L) alpha beta)
       (eigenvects L (Jacobi_matrix (sympy_sqrt L) alpha beta))"

text \<open>
  The vector \<open>b\<close> of the mpmath backend after its loop: \<open>b[i] = mp.sqrt(beta[i+1])\<close>,
  taken at precision \<open>p\<close>, for \<open>i < n - 1\<close>, and 0 at \<open>i = n - 1\<close>.
\<close>

definition offdiag_entries :: "libs \<Rightarrow> nat \<Rightarrow> real list \<Rightarrow> nat \<Rightarrow> real list" where
  "offdiag_entries L p beta n =
     map (\<lambda>i. if i < n - 1 then mp_sqrt L p (beta ! (i + 1)) else 0) [0..<n]"

text \<open>
  The Golub-Welsch rule as the specification words it: the nodes are the eigenvalues of
  the Jacobi matrix and weight \<open>j\<close> is \<open>beta[0]\<close> times the squared first component of the
  normalized eigenvector of node \<open>j\<close>. The eigenvectors are those of one eigen-decomposition:
  an orthonormal system, so that an eigenvalue is listed as often as its multiplicity,
  with a basis of its eigenspace.
\<close>

definition Golub_Welsch :: "real list list \<Rightarrow> real \<Rightarrow> real list \<Rightarrow> real list \<Rightarrow> bool" where
  "Golub_Welsch J b0 x w =
     (length x = length J \<and> length w = length J \<and> set x = eigenvalues J
      \<and> (\<exists>us. length us = length J
            \<and> (\<forall>j<length J. eigenvector J (x ! j) (us ! j) \<and> norm2 (us ! j) = 1
                  \<and> w ! j = b0 * (us ! j ! 0)\<^sup>2)
            \<and> (\<forall>i<length J. \<forall>j<length J. i \<noteq> j \<longrightarrow> dot (us ! i) (us ! j) = 0)))"

text \<open>A library whose mpmath functions are exact at 32 decimal places and useless at
  every other precision.\<close>

definition only_32_libs :: libs where
  "only_32_libs =
     exact_libs\<lparr>mp_sqrt := (\<lambda>q x. if q = 32 then sqrt x else 0),
                mp_power := (\<lambda>q x k. if q = 32 then x ^ k else 0),
                tridiag_eigen := (\<lambda>q d e z. if q = 32 then table_tridiag_eigen d e z
                                             else Inl LibraryError)\<rparr>"


text \<open>
  A library of finite precision. Its scalar functions are exact on the numbers used with
  it. Its eigen-solvers, as implicit QL iterations do, take an off-diagonal entry that is
  negligible beside its diagonal neighbours for zero: on the diagonal \<open>[1, 1]\<close> with the
  off-diagonal entry \<open>10^-40\<close>, below the 32 decimal places of mpmath's default, (for the
  band solver \<open>10^-20\<close>, below the 16 digits of a double) they return the
  eigen-decomposition of the identity matrix.
\<close>

definition finite_precision_libs :: libs where
  "finite_precision_libs =
     exact_libs\<lparr>tridiag_eigen := (\<lambda>q d e z.
                   if d = [1, 1] \<and> e = [1 / 10 ^ 40, 0] \<and> z = [1, 0] then Inr ([1, 1], [1, 0])
                   else Inl LibraryError),
                eig_banded := (\<lambda>a_band.
                   if tl (hd a_band) = [1 / 10 ^ 20] \<and> tl a_band = [[1, 1]]
                   then Inr ([1, 1], [[1, 0], [0, 1]])
                   else Inl LibraryError)\<rparr>"

text \<open>
  What the numeric backends need of their eigen-solver, with a tolerance \<open>eps\<close>. The
  Jacobi matrix has the orthonormal eigen-decomposition \<open>(x, V)\<close>, eigenvalues ascending,
  and the solver returns \<open>n\<close> eigenvalues and \<open>n\<close> first components of eigenvectors, each
  within \<open>eps\<close> of \<open>x\<close> and of the first row of \<open>V\<close> (after the conversion by \<open>sympy.Float\<close>
  in the mpmath backend); squaring by the library adds at most \<open>eps\<close>. With \<open>eps = 0\<close> the
  solver and the square are exact.
\<close>

definition mpmath_solver_within :: "libs \<Rightarrow> nat \<Rightarrow> real list \<Rightarrow> real list \<Rightarrow> real
    \<Rightarrow> real list \<Rightarrow> real list list \<Rightarrow> bool" where
  "mpmath_solver_within L p alpha beta eps x V =
     (orthonormal_eigensystem (Jacobi_matrix (mp_sqrt L p) alpha beta) x V
      \<and> (case tridiag_eigen L p alpha (offdiag_entries L p beta (length alpha))
                ((replicate (length alpha) 0)[0 := 1]) of
           Inl e \<Rightarrow> False
         | Inr (d', z') \<Rightarrow>
             length d' = length alpha \<and> length z' = length alpha
             \<and> (\<forall>j<length alpha. \<bar>sympy_Float L (d' ! j) - x ! j\<bar> \<le> eps
                   \<and> \<bar>z' ! j - V ! 0 ! j\<bar> \<le> eps
                   \<and> \<bar>mp_power L p (z' ! j) 2 - (z' ! j)\<^sup>2\<bar> \<le> eps)))"

definition numpy_solver_within :: "libs \<Rightarrow> real list \<Rightarrow> real list \<Rightarrow> real
    \<Rightarrow> real list \<Rightarrow> real list list \<Rightarrow> bool" where
  "numpy_solver_within L alpha beta eps x V =
     (orthonormal_eigensystem (Jacobi_matrix (numpy_sqrt L) alpha beta) x V
      \<and> (case eig_banded L [map (numpy_sqrt L) beta, alpha] of
           Inl e \<Rightarrow> False
         | Inr (x', V') \<Rightarrow>
             length x' = length alpha \<and> V' \<noteq> [] \<and> length (hd V') = length alpha
             \<and> (\<forall>j<length alpha. \<bar>x' ! j - x ! j\<bar> \<le> eps
                   \<and> \<bar>hd V' ! j - V ! 0 ! j\<bar> \<le> eps
                   \<and> \<bar>scipy_real L (scipy_power L (hd V' ! j) 2) - (hd V' ! j)\<^sup>2\<bar> \<le> eps)))"

text \<open>A library whose \<open>tridiag_eigen\<close> is off by up to a thousandth.\<close>

definition rounding_libs :: libs where
  "rounding_libs =
     exact_libs\<lparr>tridiag_eigen := (\<lambda>q d e z.
                   if d = [9, 16] \<and> e = [12, 0] \<and> z = [1, 0]
                   then Inr ([1/1000, 25], [- (799/1000), 3/5])
                   else Inl LibraryError)\<rparr>"

section \<open>Dispatch, precision state and the wrappers\<close>

lemma sqrt_144: "sqrt 144 = 12"
  using real_sqrt_abs [of 12] by simp

lemma fold_offdiag_vector:
  "k + 1 \<le> n \<Longrightarrow> fold (\<lambda>i b. b[i := f (beta ! (i + 1))]) [0..<k] (replicate n 0) =
     map (\<lambda>i. if i < k then f (beta ! (i + 1)) else 0) [0..<n]"
proof (induction k)
  case 0
  show ?case by (auto intro!: nth_equalityI)
next
  case (Suc k)
  then show ?case
    by (auto intro!: nth_equalityI simp: nth_list_update less_Suc_eq)
qed

lemma mpmath_sets_dps:
  "snd (gauss_from_coefficients_mpmath L alpha beta p mp) = mp\<lparr>dps := p\<rparr>"
  by (simp add: gauss_from_coefficients_mpmath_def Let_def
      split: sum.splits prod.splits list.splits)

lemma mpmath_result_any_context:
  "fst (gauss_from_coefficients_mpmath L alpha beta p mp) =
   fst (gauss_from_coefficients_mpmath L alpha beta p mp')"
  by (simp add: gauss_from_coefficients_mpmath_def Let_def
      split: sum.splits prod.splits list.splits)

lemma offdiag_vector_beta0:
  "offdiag_vector L p (c # bs) n = offdiag_vector L p (b0 # bs) n"
  by (simp add: offdiag_vector_def)

lemma mpmath_weights_scaled:
  assumes "fst (gauss_from_coefficients_mpmath L alpha beta p mp) = Inr (x, w)"
      and "elems beta = b0 # bs"
  shows "\<exists>b d' z'. offdiag_vector L p (elems beta) (length (elems alpha)) = Inr b
           \<and> tridiag_eigen L p (elems alpha) b ((replicate (length (elems alpha)) 0)[0 := 1])
               = Inr (d', z')
           \<and> x = map (sympy_Float L) d' \<and> w = map (\<lambda>ww. b0 * mp_power L p ww 2) z'"
  using assms
  by (auto simp: gauss_from_coefficients_mpmath_def Let_def
      split: sum.splits prod.splits list.splits if_splits)

lemma mpmath_uses_precision:
  assumes "mp_sqrt L' p = mp_sqrt L p" "mp_power L' p = mp_power L p"
      and "tridiag_eigen L' p = tridiag_eigen L p" "sympy_Float L' = sympy_Float L"
  shows "gauss_from_coefficients_mpmath L' alpha beta p mp =
         gauss_from_coefficients_mpmath L alpha beta p mp"
  using assms
  by (simp add: gauss_from_coefficients_mpmath_def offdiag_vector_def Let_def
      split: sum.splits prod.splits list.splits)

lemma offdiag_vector_entries:
  assumes "0 < n" "n \<le> length beta"
  shows "offdiag_vector L p beta n = Inr (offdiag_entries L p beta n)"
  using assms fold_offdiag_vector [of "n - 1" n "mp_sqrt L p" beta]
  by (simp add: offdiag_vector_def offdiag_entries_def)

text \<open>The mpmath backend, its loop and its guards resolved: every mpmath function is
  called at the precision \<open>p\<close> that was just assigned.\<close>

lemma mpmath_structure:
  assumes "elems alpha \<noteq> []" "length (elems alpha) \<le> length (elems beta)"
  shows "gauss_from_coefficients_mpmath L alpha beta p mp =
     (case tridiag_eigen L p (elems alpha)
             (offdiag_entries L p (elems beta) (length (elems alpha)))
             ((replicate (length (elems alpha)) 0)[0 := 1]) of
        Inl e \<Rightarrow> (Inl e, mp\<lparr>dps := p\<rparr>)
      | Inr (d', z') \<Rightarrow>
          (Inr (map (sympy_Float L) d', map (\<lambda>ww. hd (elems beta) * mp_power L p ww 2) z'),
           mp\<lparr>dps := p\<rparr>))"
proof -
  have n: "0 < length (elems alpha)" using assms(1) by simp
  have b: "offdiag_vector L p (elems beta) (length (elems alpha)) =
      Inr (offdiag_entries L p (elems beta) (length (elems alpha)))"
    by (rule offdiag_vector_entries [OF n assms(2)])
  have "elems beta \<noteq> []" using assms by auto
  then show ?thesis
    using assms(1)
    by (simp add: gauss_from_coefficients_mpmath_def b Let_def
        split: sum.splits prod.splits list.splits)
qed

text \<open>
  C9. A selector outside \<open>sympy\<close>, \<open>mpmath\<close>, \<open>numpy\<close> makes \<open>custom\<close> fail at once with the
  \<open>AssertionError\<close> of \<open>assert mode == 'numpy'\<close> (the error the specification calls
  UnsupportedBackend): whatever the coefficients and the libraries are, nothing is
  computed and the precision state is left as it was. Each recognised selector runs
  exactly its own backend.
\<close>

theorem custom_dispatch:
  "(mode \<notin> {''sympy'', ''mpmath'', ''numpy''} \<longrightarrow>
      custom L alpha beta mode p mp = (Inl AssertionError, mp))
   \<and> custom L alpha beta ''sympy'' p mp = (gauss_from_coefficients_sympy L alpha beta, mp)
   \<and> custom L alpha beta ''mpmath'' p mp = gauss_from_coefficients_mpmath L alpha beta p mp
   \<and> custom L alpha beta ''numpy'' p mp = (gauss_from_coefficients_numpy L alpha beta, mp)"
  by (simp add: custom_def)

theorem custom_dispatch_witness:
  "''scipy'' \<notin> {''sympy'', ''mpmath'', ''numpy''}
   \<and> custom exact_libs (NdArray [9, 16]) (NdArray [2, 144]) ''scipy'' 32 \<lparr>dps = 15\<rparr>
       = (Inl AssertionError, \<lparr>dps = 15\<rparr>)"
  using custom_dispatch [of "''scipy''" exact_libs "NdArray [9, 16]" "NdArray [2, 144]" 32
      "\<lparr>dps = 15\<rparr>"]
  by simp

text \<open>
  C6. Every call of the mpmath backend, directly or through \<open>custom\<close>, leaves the
  process-wide precision at the \<open>decimal_places\<close> it was given (32 when \<open>custom\<close> is called
  with its defaults): the value is assigned on entry and never restored. It is an
  argument of the call: the result is the same from any earlier precision state, so the
  caller has nothing to set beforehand. The computation runs at that precision: on
  coefficients that pass the index checks the result is what \<open>tridiag_eigen\<close>, called at
  \<open>decimal_places\<close> on \<open>alpha\<close> and on the square roots \<open>mp.sqrt\<close> takes at
  \<open>decimal_places\<close>, returns, with weights squared by \<open>mp.power\<close> at \<open>decimal_places\<close>; so
  it depends on the mpmath functions only through what they compute at that precision.
  The other two backends leave the state alone.
\<close>

theorem mpmath_precision_state:
  "snd (gauss_from_coefficients_mpmath L alpha beta p mp) = mp\<lparr>dps := p\<rparr>
   \<and> fst (gauss_from_coefficients_mpmath L alpha beta p mp) =
       fst (gauss_from_coefficients_mpmath L alpha beta p mp')
   \<and> snd (custom L alpha beta ''mpmath'' p mp) = mp\<lparr>dps := p\<rparr>
   \<and> fst (custom L alpha beta ''mpmath'' p mp) = fst (custom L alpha beta ''mpmath'' p mp')
   \<and> snd (custom_default L alpha beta mp) = mp\<lparr>dps := 32\<rparr>
   \<and> snd (custom L alpha beta ''sympy'' p mp) = mp
   \<and> snd (custom L alpha beta ''numpy'' p mp) = mp
   \<and> (mp_sqrt L' p = mp_sqrt L p \<and> mp_power L' p = mp_power L p
        \<and> tridiag_eigen L' p = tridiag_eigen L p \<and> sympy_Float L' = sympy_Float L
      \<longrightarrow> custom L' alpha beta ''mpmath'' p mp = custom L alpha beta ''mpmath'' p mp)
   \<and> (elems alpha \<noteq> [] \<and> length (elems alpha) \<le> length (elems beta)
      \<longrightarrow> offdiag_vector L p (elems beta) (length (elems alpha)) =
            Inr (offdiag_entries L p (elems beta) (length (elems alpha)))
          \<and> custom L alpha beta ''mpmath'' p mp =
            (case tridiag_eigen L p (elems alpha)
                    (offdiag_entries L p (elems beta) (length (elems alpha)))
                    ((replicate (length (elems alpha)) 0)[0 := 1]) of
               Inl e \<Rightarrow> (Inl e, mp\<lparr>dps := p\<rparr>)
             | Inr (d', z') \<Rightarrow>
                 (Inr (map (sympy_Float L) d',
                       map (\<lambda>ww. hd (elems beta) * mp_power L p ww 2) z'),
                  mp\<lparr>dps := p\<rparr>)))"
proof -
  have run: "elems alpha \<noteq> [] \<and> length (elems alpha) \<le> length (elems beta)
      \<longrightarrow> offdiag_vector L p (elems beta) (length (elems alpha)) =
            Inr (offdiag_entries L p (elems beta) (length (elems alpha)))
          \<and> custom L alpha beta ''mpmath'' p mp =
            (case tridiag_eigen L p (elems alpha)
                    (offdiag_entries L p (elems beta) (length (elems alpha)))
                    ((replicate (length (elems alpha)) 0)[0 := 1]) of
               Inl e \<Rightarrow> (Inl e, mp\<lparr>dps := p\<rparr>)
             | Inr (d', z') \<Rightarrow>
                 (Inr (map (sympy_Float L) d',
                       map (\<lambda>ww. hd (elems beta) * mp_power L p ww 2) z'),
                  mp\<lparr>dps := p\<rparr>))"
    using mpmath_structure [of alpha beta L p mp]
      offdiag_vector_entries [of "length (elems alpha)" "elems beta" L p]
    by (simp add: custom_def)
  show ?thesis
    using mpmath_result_any_context [of L alpha beta p mp mp']
      mpmath_uses_precision [of L' p L alpha beta mp] run
    by (simp add: custom_def custom_default_def mpmath_sets_dps)
qed

theorem mpmath_precision_state_witness:
  "mp_sqrt only_32_libs 32 = mp_sqrt exact_libs 32
   \<and> mp_power only_32_libs 32 = mp_power exact_libs 32
   \<and> tridiag_eigen only_32_libs 32 = tridiag_eigen exact_libs 32
   \<and> sympy_Float only_32_libs = sympy_Float exact_libs
   \<and> elems (PyList [9, 16]) \<noteq> []
   \<and> length (elems (PyList [9, 16])) \<le> length (elems (PyList [2, 144]))
   \<and> offdiag_entries only_32_libs 32 [2, 144] 2 = [12, 0]
   \<and> tridiag_eigen only_32_libs 32 [9, 16] [12, 0] [1, 0] = Inr ([0, 25], [-4/5, 3/5])
   \<and> mp_power only_32_libs 32 (3/5) 2 = 9/25
   \<and> custom only_32_libs (PyList [9, 16]) (PyList [2, 144]) ''mpmath'' 32 \<lparr>dps = 15\<rparr> =
       (Inr ([0, 25], [32/25, 18/25]), \<lparr>dps = 32\<rparr>)
   \<and> custom only_32_libs (PyList [9, 16]) (PyList [2, 144]) ''mpmath'' 32 \<lparr>dps = 15\<rparr> =
       custom exact_libs (PyList [9, 16]) (PyList [2, 144]) ''mpmath'' 32 \<lparr>dps = 15\<rparr>
   \<and> offdiag_entries only_32_libs 31 [2, 144] 2 = [0, 0]
   \<and> custom only_32_libs (PyList [9, 16]) (PyList [2, 144]) ''mpmath'' 31 \<lparr>dps = 15\<rparr> =
       (Inl LibraryError, \<lparr>dps = 31\<rparr>)"
proof -
  have same: "mp_sqrt only_32_libs 32 = mp_sqrt exact_libs 32"
      "mp_power only_32_libs 32 = mp_power exact_libs 32"
      "tridiag_eigen only_32_libs 32 = tridiag_eigen exact_libs 32"
      "sympy_Float only_32_libs = sympy_Float exact_libs"
    by (simp_all add: only_32_libs_def exact_libs_def)
  have b32: "offdiag_entries only_32_libs 32 [2, 144] 2 = [12, 0]"
    by (simp add: offdiag_entries_def only_32_libs_def sqrt_144 numeral_2_eq_2)
  have b31: "offdiag_entries only_32_libs 31 [2, 144] 2 = [0, 0]"
    by (simp add: offdiag_entries_def only_32_libs_def numeral_2_eq_2)
  have b32': "offdiag_entries only_32_libs 32 [2, 144] (Suc (Suc 0)) = [12, 0]"
    using b32 by (simp add: numeral_2_eq_2)
  have b31': "offdiag_entries only_32_libs 31 [2, 144] (Suc (Suc 0)) = [0, 0]"
    using b31 by (simp add: numeral_2_eq_2)
  have e0: "(replicate 2 0)[0 := 1] = [1, 0 :: real]"
    by (simp add: numeral_2_eq_2)
  have t32: "tridiag_eigen only_32_libs 32 [9, 16] [12, 0] [1, 0] = Inr ([0, 25], [-4/5, 3/5])"
    by (simp add: only_32_libs_def table_tridiag_eigen_def)
  have t31: "tridiag_eigen only_32_libs 31 [9, 16] [0, 0] [1, 0] = Inl LibraryError"
    by (simp add: only_32_libs_def)
  have pw: "mp_power only_32_libs 32 (3/5) 2 = 9/25" "mp_power only_32_libs 32 (- (4/5)) 2 = 16/25"
    by (simp_all add: only_32_libs_def power2_eq_square)
  have fl: "sympy_Float only_32_libs = (\<lambda>x. x)"
    by (simp add: only_32_libs_def exact_libs_def)
  have r32: "custom only_32_libs (PyList [9, 16]) (PyList [2, 144]) ''mpmath'' 32 \<lparr>dps = 15\<rparr> =
       (Inr ([0, 25], [32/25, 18/25]), \<lparr>dps = 32\<rparr>)"
    using mpmath_precision_state [of only_32_libs "PyList [9, 16]" "PyList [2, 144]" 32
        "\<lparr>dps = 15\<rparr>" "\<lparr>dps = 15\<rparr>" exact_libs]
    by (simp add: b32' e0 t32 pw fl)
  have r31: "custom only_32_libs (PyList [9, 16]) (PyList [2, 144]) ''mpmath'' 31 \<lparr>dps = 15\<rparr> =
       (Inl LibraryError, \<lparr>dps = 31\<rparr>)"
    using mpmath_precision_state [of only_32_libs "PyList [9, 16]" "PyList [2, 144]" 31
        "\<lparr>dps = 15\<rparr>" "\<lparr>dps = 15\<rparr>" exact_libs]
    by (simp add: b31' e0 t31)
  have eq: "custom only_32_libs (PyList [9, 16]) (PyList [2, 144]) ''mpmath'' 32 \<lparr>dps = 15\<rparr> =
       custom exact_libs (PyList [9, 16]) (PyList [2, 144]) ''mpmath'' 32 \<lparr>dps = 15\<rparr>"
    using mpmath_precision_state [of exact_libs "PyList [9, 16]" "PyList [2, 144]" 32
        "\<lparr>dps = 15\<rparr>" "\<lparr>dps = 15\<rparr>" only_32_libs] same
    by simp
  show ?thesis
    using same b32 b31 t32 pw(1) r32 r31 eq by simp
qed

text \<open>
  C7. The Gegenbauer evaluator and recurrence-coefficient provider are the Jacobi ones
  constructed with both Jacobi parameters equal to \<open>lmbda\<close>: whatever is observed of the
  object (any inherited method or attribute) is what the Jacobi object shows, for every
  point set, scaling, \<open>lmbda\<close> and symbolic flag.
\<close>

theorem gegenbauer_is_jacobi:
  "behaviour (gegenbauer_Eval JE) (new (gegenbauer_Eval JE) (X, scaling, lmbda, symbolic))
     = behaviour JE (new JE (X, scaling, lmbda, lmbda, symbolic))
   \<and> behaviour (gegenbauer_RecurrenceCoefficients JR)
       (new (gegenbauer_RecurrenceCoefficients JR) (scaling, lmbda, symbolic))
     = behaviour JR (new JR (scaling, lmbda, lmbda, symbolic))"
  by (simp add: gegenbauer_Eval_def gegenbauer_RecurrenceCoefficients_def)

text \<open>
  C8. For both standardizations, \<open>enr2.Eval\<close> and \<open>enr2.EvalWithDegrees\<close> pass to the
  product base the constant \<open>sqrt(pi)\<close>: \<open>sympy.sqrt(sympy.pi)\<close> when the (resolved)
  symbolic flag is set and \<open>numpy.sqrt(numpy.pi)\<close> otherwise. The constant does not depend
  on the standardization.
\<close>

theorem enr2_normalization:
  assumes "standardization \<in> {''probabilists'', ''physicists''}"
  shows "\<exists>rc. enr2_Eval L base_init RCProb RCPhys X standardization symbolic =
           Inr (base_init \<lparr>arg_rc = rc,
                  arg_int_1 = (if resolve_symbolic L X symbolic
                               then sympy_sqrt L (sympy_pi L) else numpy_sqrt L (numpy_pi L)),
                  arg_X = X, arg_symbolic = resolve_symbolic L X symbolic\<rparr>)
         \<and> enr2_EvalWithDegrees L base_init' RCProb RCPhys X standardization symbolic =
           Inr (base_init' \<lparr>arg_rc = rc,
                  arg_int_1 = (if resolve_symbolic L X symbolic
                               then sympy_sqrt L (sympy_pi L) else numpy_sqrt L (numpy_pi L)),
                  arg_X = X, arg_symbolic = resolve_symbolic L X symbolic\<rparr>)
         \<and> rc = (if standardization = ''probabilists'' then RCProb else RCPhys)
                  (resolve_symbolic L X symbolic)"
  using assms
  by (auto simp: enr2_Eval_def enr2_EvalWithDegrees_def rc_class_def Let_def)

theorem enr2_normalization_witness:
  "''physicists'' \<in> {''probabilists'', ''physicists''}
   \<and> (\<exists>rc. enr2_Eval exact_libs (\<lambda>a. a) (\<lambda>s. (1::nat, s)) (\<lambda>s. (2::nat, s)) [[0, 1]]
              ''physicists'' (given True) =
             Inr \<lparr>arg_rc = rc, arg_int_1 = sqrt pi, arg_X = [[0, 1]], arg_symbolic = True\<rparr>
          \<and> enr2_EvalWithDegrees exact_libs (\<lambda>a. a) (\<lambda>s. (1::nat, s)) (\<lambda>s. (2::nat, s)) [[0, 1]]
              ''physicists'' (given True) =
             Inr \<lparr>arg_rc = rc, arg_int_1 = sqrt pi, arg_X = [[0, 1]], arg_symbolic = True\<rparr>
          \<and> rc = (2, True))"
  using enr2_normalization [of "''physicists''" exact_libs "\<lambda>a. a" "\<lambda>s. (1::nat, s)"
      "\<lambda>s. (2::nat, s)" "[[0, 1]]" "given True" "\<lambda>a. a"]
  by (simp add: resolve_symbolic_def exact_libs_def)

text \<open>
  C10. \<open>chebyshev1\<close>, \<open>chebyshev2\<close> and \<open>hermite\<close> replace \<open>beta[0]\<close> by
  \<open>sympy.N(beta[0], decimal_places)\<close> and then run the mpmath backend, so that every weight
  they return is that rounded number times a squared eigenvector component; \<open>legendre\<close>,
  \<open>jacobi\<close>, \<open>laguerre\<close> and \<open>laguerre_generalized\<close> run the mpmath backend on the
  coefficients as the provider returned them.
\<close>

theorem wrappers_beta0:
  "(rc_chebyshev1 R n = (alpha, beta) \<and> elems beta = b0 # bs \<longrightarrow>
      chebyshev1 R L n p mp =
        gauss_from_coefficients_mpmath L alpha (with_elems beta (sympy_N L b0 p # bs)) p mp
      \<and> (\<forall>x w. fst (chebyshev1 R L n p mp) = Inr (x, w) \<longrightarrow>
            (\<exists>b d' z'. offdiag_vector L p (elems beta) (length (elems alpha)) = Inr b
               \<and> tridiag_eigen L p (elems alpha) b ((replicate (length (elems alpha)) 0)[0 := 1])
                   = Inr (d', z')
               \<and> w = map (\<lambda>ww. sympy_N L b0 p * mp_power L p ww 2) z')))
   \<and> (rc_chebyshev2 R n = (alpha, beta) \<and> elems beta = b0 # bs \<longrightarrow>
      chebyshev2 R L n p mp =
        gauss_from_coefficients_mpmath L alpha (with_elems beta (sympy_N L b0 p # bs)) p mp
      \<and> (\<forall>x w. fst (chebyshev2 R L n p mp) = Inr (x, w) \<longrightarrow>
            (\<exists>b d' z'. offdiag_vector L p (elems beta) (length (elems alpha)) = Inr b
               \<and> tridiag_eigen L p (elems alpha) b ((replicate (length (elems alpha)) 0)[0 := 1])
                   = Inr (d', z')
               \<and> w = map (\<lambda>ww. sympy_N L b0 p * mp_power L p ww 2) z')))
   \<and> (rc_hermite R n = (alpha, beta) \<and> elems beta = b0 # bs \<longrightarrow>
      hermite R L n p mp =
        gauss_from_coefficients_mpmath L alpha (with_elems beta (sympy_N L b0 p # bs)) p mp
      \<and> (\<forall>x w. fst (hermite R L n p mp) = Inr (x, w) \<longrightarrow>
            (\<exists>b d' z'. offdiag_vector L p (elems beta) (length (elems alpha)) = Inr b
               \<and> tridiag_eigen L p (elems alpha) b ((replicate (length (elems alpha)) 0)[0 := 1])
                   = Inr (d', z')
               \<and> w = map (\<lambda>ww. sympy_N L b0 p * mp_power L p ww 2) z')))
   \<and> (rc_legendre R n ''sympy'' = (alpha, beta) \<longrightarrow>
      legendre R L n p mp = gauss_from_coefficients_mpmath L alpha beta p mp)
   \<and> (rc_jacobi R n a b ''sympy'' = (alpha, beta) \<longrightarrow>
      jacobi R L a b n p mp = gauss_from_coefficients_mpmath L alpha beta p mp)
   \<and> (rc_laguerre R n = (alpha, beta) \<longrightarrow>
      laguerre R L n p mp = gauss_from_coefficients_mpmath L alpha beta p mp)
   \<and> (rc_laguerre_generalized R n a = (alpha, beta) \<longrightarrow>
      laguerre_generalized R L n a p mp = gauss_from_coefficients_mpmath L alpha beta p mp)
   \<and> (elems beta = b0 # bs \<longrightarrow>
      (\<forall>x w. fst (gauss_from_coefficients_mpmath L alpha beta p mp) = Inr (x, w) \<longrightarrow>
         (\<exists>b d' z'. offdiag_vector L p (elems beta) (length (elems alpha)) = Inr b
            \<and> tridiag_eigen L p (elems alpha) b ((replicate (length (elems alpha)) 0)[0 := 1])
                = Inr (d', z')
            \<and> w = map (\<lambda>ww. b0 * mp_power L p ww 2) z')))"
proof -
  have elems_with: "\<And>s ys. elems (with_elems s ys) = ys"
    by (case_tac s) simp_all
  have rounded: "\<And>x w. elems beta = b0 # bs \<Longrightarrow>
      fst (gauss_from_coefficients_mpmath L alpha (with_elems beta (sympy_N L b0 p # bs)) p mp)
        = Inr (x, w) \<Longrightarrow>
      \<exists>b d' z'. offdiag_vector L p (elems beta) (length (elems alpha)) = Inr b
         \<and> tridiag_eigen L p (elems alpha) b ((replicate (length (elems alpha)) 0)[0 := 1])
             = Inr (d', z')
         \<and> w = map (\<lambda>ww. sympy_N L b0 p * mp_power L p ww 2) z'"
    using mpmath_weights_scaled [of L alpha "with_elems beta (sympy_N L b0 p # bs)" p mp _ _
        "sympy_N L b0 p" bs] offdiag_vector_beta0 [of L p "sympy_N L b0 p" bs _ b0]
    by (auto simp: elems_with)
  have plain: "\<And>x w. elems beta = b0 # bs \<Longrightarrow>
      fst (gauss_from_coefficients_mpmath L alpha beta p mp) = Inr (x, w) \<Longrightarrow>
      \<exists>b d' z'. offdiag_vector L p (elems beta) (length (elems alpha)) = Inr b
         \<and> tridiag_eigen L p (elems alpha) b ((replicate (length (elems alpha)) 0)[0 := 1])
             = Inr (d', z')
         \<and> w = map (\<lambda>ww. b0 * mp_power L p ww 2) z'"
    using mpmath_weights_scaled [of L alpha beta p mp _ _ b0 bs] by blast
  have cheb1: "rc_chebyshev1 R n = (alpha, beta) \<Longrightarrow> elems beta = b0 # bs \<Longrightarrow>
      chebyshev1 R L n p mp =
        gauss_from_coefficients_mpmath L alpha (with_elems beta (sympy_N L b0 p # bs)) p mp"
    by (simp add: chebyshev1_def round_beta0_def custom_def)
  have cheb2: "rc_chebyshev2 R n = (alpha, beta) \<Longrightarrow> elems beta = b0 # bs \<Longrightarrow>
      chebyshev2 R L n p mp =
        gauss_from_coefficients_mpmath L alpha (with_elems beta (sympy_N L b0 p # bs)) p mp"
    by (simp add: chebyshev2_def round_beta0_def custom_def)
  have herm: "rc_hermite R n = (alpha, beta) \<Longrightarrow> elems beta = b0 # bs \<Longrightarrow>
      hermite R L n p mp =
        gauss_from_coefficients_mpmath L alpha (with_elems beta (sympy_N L b0 p # bs)) p mp"
    by (simp add: hermite_def round_beta0_def custom_def)
  have others: "rc_legendre R n ''sympy'' = (alpha, beta) \<Longrightarrow>
        legendre R L n p mp = gauss_from_coefficients_mpmath L alpha beta p mp"
      "rc_jacobi R n a b ''sympy'' = (alpha, beta) \<Longrightarrow>
        jacobi R L a b n p mp = gauss_from_coefficients_mpmath L alpha beta p mp"
      "rc_laguerre R n = (alpha, beta) \<Longrightarrow>
        laguerre R L n p mp = gauss_from_coefficients_mpmath L alpha beta p mp"
      "rc_laguerre_generalized R n a = (alpha, beta) \<Longrightarrow>
        laguerre_generalized R L n a p mp = gauss_from_coefficients_mpmath L alpha beta p mp"
    by (simp_all add: legendre_def jacobi_def laguerre_def laguerre_generalized_def custom_def)
  show ?thesis
    using rounded plain cheb1 cheb2 herm others by (intro conjI impI allI) simp_all
qed

theorem wrappers_beta0_witness:
  "rc_chebyshev1 table_rc 2 = (PyList [9, 16], PyList [1/3, 144])
   \<and> elems (PyList [1/3, 144]) = [1/3, 144]
   \<and> rc_legendre table_rc 2 ''sympy'' = (PyList [9, 16], PyList [1/3, 144])
   \<and> chebyshev1 table_rc truncating_libs 2 2 \<lparr>dps = 15\<rparr> =
       gauss_from_coefficients_mpmath truncating_libs (PyList [9, 16]) (PyList [33/100, 144]) 2
         \<lparr>dps = 15\<rparr>
   \<and> chebyshev1 table_rc truncating_libs 2 2 \<lparr>dps = 15\<rparr> =
       (Inr ([0, 25], [33/100 * (16/25), 33/100 * (9/25)]), \<lparr>dps = 2\<rparr>)
   \<and> legendre table_rc truncating_libs 2 2 \<lparr>dps = 15\<rparr> =
       gauss_from_coefficients_mpmath truncating_libs (PyList [9, 16]) (PyList [1/3, 144]) 2
         \<lparr>dps = 15\<rparr>
   \<and> legendre table_rc truncating_libs 2 2 \<lparr>dps = 15\<rparr> =
       (Inr ([0, 25], [1/3 * (16/25), 1/3 * (9/25)]), \<lparr>dps = 2\<rparr>)"
proof -
  have rc: "rc_chebyshev1 table_rc 2 = (PyList [9, 16], PyList [1/3, 144])"
       "rc_legendre table_rc 2 ''sympy'' = (PyList [9, 16], PyList [1/3, 144])"
    by (simp_all add: table_rc_def)
  have N: "sympy_N truncating_libs (1/3) 2 = 33/100"
    by (simp add: truncating_libs_def)
  have run: "\<And>b0. gauss_from_coefficients_mpmath truncating_libs (PyList [9, 16])
        (PyList [b0, 144]) 2 \<lparr>dps = 15\<rparr> =
      (Inr ([0, 25], [b0 * (16/25), b0 * (9/25)]), \<lparr>dps = 2\<rparr>)"
    by (simp add: gauss_from_coefficients_mpmath_def offdiag_vector_def truncating_libs_def
        exact_libs_def table_tridiag_eigen_def sqrt_144 Let_def numeral_2_eq_2 power2_eq_square)
  show ?thesis
    using wrappers_beta0 [of table_rc 2 "PyList [9, 16]" "PyList [1/3, 144]" "1/3" "[144]"
        truncating_libs 2 "\<lparr>dps = 15\<rparr>" 0 0] rc N run
    by simp
qed

section \<open>The matrix the solvers receive\<close>

lemma fold_set_diag:
  "k \<le> n \<Longrightarrow> fold (set_diag a) [0..<k] (replicate n (replicate n 0)) =
     map (\<lambda>i. map (\<lambda>j. if i = j \<and> i < k then a ! i else 0) [0..<n]) [0..<n]"
proof (induction k)
  case 0
  show ?case by (auto intro!: nth_equalityI)
next
  case (Suc k)
  then show ?case
    by (auto simp: set_diag_def intro!: nth_equalityI simp: nth_list_update less_Suc_eq)
qed

lemma fold_set_offdiag:
  assumes "length D = n" "\<forall>i<n. length (D ! i) = n"
  shows "k + 1 \<le> n \<Longrightarrow> fold (set_offdiag b) [0..<k] D =
     map (\<lambda>i. map (\<lambda>j. if j = i + 1 \<and> i < k then b ! (i + 1)
                        else if i = j + 1 \<and> j < k then b ! (j + 1)
                        else D ! i ! j) [0..<n]) [0..<n]"
proof (induction k)
  case 0
  show ?case using assms by (auto intro!: nth_equalityI)
next
  case (Suc k)
  then show ?case
    by (auto simp: set_offdiag_def Let_def intro!: nth_equalityI simp: nth_list_update less_Suc_eq)
qed

lemma sympy_tridiag_Jacobi:
  assumes "length beta = length alpha"
  shows "sympy_tridiag alpha (map sq beta) = Inr (Jacobi_matrix sq alpha beta)"
proof (cases "length alpha")
  case 0
  with assms show ?thesis by (simp add: sympy_tridiag_def Jacobi_matrix_def)
next
  case (Suc m)
  define n where "n = length alpha"
  define D where "D = map (\<lambda>i. map (\<lambda>j. if i = j \<and> i < n then alpha ! i else 0) [0..<n]) [0..<n]"
  have D: "length D = n" "\<forall>i<n. length (D ! i) = n"
    by (simp_all add: D_def)
  have "fold (set_offdiag (map sq beta)) [0..<n - 1] D =
        map (\<lambda>i. map (\<lambda>j. if j = i + 1 \<and> i < n - 1 then map sq beta ! (i + 1)
                        else if i = j + 1 \<and> j < n - 1 then map sq beta ! (j + 1)
                        else D ! i ! j) [0..<n]) [0..<n]"
    using fold_set_offdiag [OF D, of "n - 1" "map sq beta"] Suc by (simp add: n_def)
  also have "\<dots> = Jacobi_matrix sq alpha beta"
    using assms by (auto simp: Jacobi_matrix_def D_def n_def intro!: nth_equalityI)
  finally show ?thesis
    using assms fold_set_diag [of n n alpha] by (simp add: sympy_tridiag_def D_def n_def)
qed



section \<open>Linear algebra of finite sequences\<close>

text \<open>More vectors than coordinates: some non-trivial combination vanishes.\<close>

lemma linear_dependence:
  fixes v :: "'i \<Rightarrow> nat \<Rightarrow> real"
  assumes "finite S" "n < card S"
  shows "\<exists>c. (\<exists>j\<in>S. c j \<noteq> 0) \<and> (\<forall>k<n. (\<Sum>j\<in>S. c j * v j k) = 0)"
  using assms
proof (induction n arbitrary: S v)
  case 0
  then have "S \<noteq> {}" by auto
  then obtain j where "j \<in> S" by auto
  then show ?case by (intro exI [of _ "\<lambda>_. 1"]) auto
next
  case (Suc n)
  show ?case
  proof (cases "\<forall>j\<in>S. v j n = 0")
    case True
    from Suc.prems have "n < card S" by simp
    from Suc.IH [OF Suc.prems(1) this, of v]
    obtain c where c: "\<exists>j\<in>S. c j \<noteq> 0" "\<forall>k<n. (\<Sum>j\<in>S. c j * v j k) = 0" by blast
    have "(\<Sum>j\<in>S. c j * v j n) = 0" using True by simp
    with c show ?thesis
      by (intro exI [of _ c]) (auto simp: less_Suc_eq)
  next
    case False
    then obtain p where p: "p \<in> S" "v p n \<noteq> 0" by blast
    define S' where "S' = S - {p}"
    define v' where "v' = (\<lambda>j k. v j k - (v j n / v p n) * v p k)"
    have fin: "finite S'" using Suc.prems by (simp add: S'_def)
    have card: "n < card S'" using Suc.prems p by (simp add: S'_def)
    from Suc.IH [OF fin card, of v']
    obtain c' where c': "\<exists>j\<in>S'. c' j \<noteq> 0" "\<forall>k<n. (\<Sum>j\<in>S'. c' j * v' j k) = 0" by blast
    define c where "c = (\<lambda>j. if j = p then - (\<Sum>i\<in>S'. c' i * v i n) / v p n else c' j)"
    have split: "(\<Sum>j\<in>S. c j * v j k) = (\<Sum>j\<in>S'. c' j * v' j k)" for k
    proof -
      have "(\<Sum>j\<in>S. c j * v j k) = c p * v p k + (\<Sum>j\<in>S'. c j * v j k)"
        using Suc.prems(1) p(1) by (simp add: S'_def sum.remove)
      also have "(\<Sum>j\<in>S'. c j * v j k) = (\<Sum>j\<in>S'. c' j * v j k)"
        by (rule sum.cong) (auto simp: c_def S'_def)
      also have "c p * v p k = - (\<Sum>j\<in>S'. c' j * ((v j n / v p n) * v p k))"
        by (simp add: c_def sum_distrib_right sum_divide_distrib sum_negf mult.assoc
            divide_simps)
      finally show ?thesis
        by (simp add: v'_def right_diff_distrib sum_subtractf)
    qed
    have "(\<Sum>j\<in>S. c j * v j k) = 0" if "k < Suc n" for k
    proof (cases "k = n")
      case True
      have "v' j n = 0" for j using p(2) by (simp add: v'_def)
      then show ?thesis using split [of n] True by simp
    next
      case False
      with that have "k < n" by simp
      then show ?thesis using split [of k] c'(2) by simp
    qed
    moreover have "\<exists>j\<in>S. c j \<noteq> 0"
      using c'(1) by (auto simp: c_def S'_def)
    ultimately show ?thesis by (intro exI [of _ c]) auto
  qed
qed

text \<open>Pairwise orthogonal non-zero vectors are at most as many as coordinates.\<close>

lemma orthogonal_family_card:
  fixes w :: "'i \<Rightarrow> nat \<Rightarrow> real"
  assumes fin: "finite S"
      and orth: "\<And>i j. i \<in> S \<Longrightarrow> j \<in> S \<Longrightarrow> i \<noteq> j \<Longrightarrow> ip n (w i) (w j) = 0"
      and nz: "\<And>i. i \<in> S \<Longrightarrow> ip n (w i) (w i) \<noteq> 0"
  shows "card S \<le> n"
proof (rule ccontr)
  assume "\<not> card S \<le> n"
  then have "n < card S" by simp
  from linear_dependence [OF fin this, of w]
  obtain c j where c: "j \<in> S" "c j \<noteq> 0" "\<forall>k<n. (\<Sum>i\<in>S. c i * w i k) = 0" by blast
  have "0 = (\<Sum>k<n. (\<Sum>i\<in>S. c i * w i k) * w j k)"
    using c(3) by simp
  also have "\<dots> = (\<Sum>k<n. \<Sum>i\<in>S. c i * (w i k * w j k))"
    by (simp add: sum_distrib_right mult.assoc)
  also have "\<dots> = (\<Sum>i\<in>S. c i * ip n (w i) (w j))"
    by (subst sum.swap) (simp add: ip_def sum_distrib_left)
  also have "\<dots> = (\<Sum>i\<in>S. if i = j then c j * ip n (w j) (w j) else 0)"
    by (rule sum.cong) (auto simp: orth c(1))
  also have "\<dots> = c j * ip n (w j) (w j)"
    using fin c(1) by simp
  finally show False using c(2) nz [OF c(1)] by simp
qed

lemma ip_self_zero:
  assumes "ip n a a = 0" "k < n"
  shows "a k = 0"
proof -
  have "(\<Sum>k<n. a k * a k) = 0" using assms by (simp add: ip_def)
  then have "\<forall>k\<in>{..<n}. a k * a k = 0"
    by (subst (asm) sum_nonneg_eq_0_iff) auto
  with assms(2) show ?thesis by simp
qed

text \<open>\<open>n\<close> pairwise orthogonal non-zero vectors with \<open>n\<close> coordinates represent every
  vector: Parseval's identity.\<close>

lemma parseval:
  fixes u :: "nat \<Rightarrow> nat \<Rightarrow> real"
  assumes orth: "\<And>i j. i < n \<Longrightarrow> j < n \<Longrightarrow> i \<noteq> j \<Longrightarrow> ip n (u i) (u j) = 0"
      and nz: "\<And>i. i < n \<Longrightarrow> ip n (u i) (u i) \<noteq> 0"
  shows "ip n x x = (\<Sum>i<n. (ip n x (u i))\<^sup>2 / ip n (u i) (u i))"
proof -
  define t where "t = (\<lambda>i. ip n x (u i) / ip n (u i) (u i))"
  define r where "r = (\<lambda>k. x k - (\<Sum>i<n. t i * u i k))"
  have r_orth: "ip n r (u j) = 0" if j: "j < n" for j
  proof -
    have "ip n r (u j) = ip n x (u j) - (\<Sum>k<n. \<Sum>i<n. t i * (u i k * u j k))"
      by (simp add: ip_def r_def left_diff_distrib sum_subtractf sum_distrib_right mult.assoc)
    also have "(\<Sum>k<n. \<Sum>i<n. t i * (u i k * u j k)) = (\<Sum>i<n. t i * ip n (u i) (u j))"
      by (subst sum.swap) (simp add: ip_def sum_distrib_left)
    also have "\<dots> = (\<Sum>i<n. if i = j then t j * ip n (u j) (u j) else 0)"
      by (rule sum.cong) (auto simp: orth j)
    also have "\<dots> = t j * ip n (u j) (u j)" using j by simp
    also have "\<dots> = ip n x (u j)" using nz [OF j] by (simp add: t_def)
    finally show ?thesis by simp
  qed
  have r0: "ip n r r = 0"
  proof (rule ccontr)
    assume rnz: "ip n r r \<noteq> 0"
    define w where "w = (\<lambda>i. if i < n then u i else r)"
    have "card {..n} \<le> n"
    proof (rule orthogonal_family_card [of "{..n}" n w])
      show "finite {..n}" by simp
    next
      fix i j assume "i \<in> {..n}" "j \<in> {..n}" "i \<noteq> j"
      then show "ip n (w i) (w j) = 0"
        using orth [of i j] r_orth [of i] r_orth [of j]
        by (auto simp: w_def ip_def mult.commute)
    next
      fix i assume "i \<in> {..n}"
      then show "ip n (w i) (w i) \<noteq> 0"
        using nz [of i] rnz by (auto simp: w_def)
    qed
    then show False by simp
  qed
  have x_eq: "x k = (\<Sum>i<n. t i * u i k)" if "k < n" for k
    using ip_self_zero [OF r0 that] by (simp add: r_def)
  have "ip n x x = (\<Sum>k<n. x k * (\<Sum>i<n. t i * u i k))"
    unfolding ip_def by (rule sum.cong) (auto simp: x_eq)
  also have "\<dots> = (\<Sum>k<n. \<Sum>i<n. t i * (x k * u i k))"
    by (simp add: sum_distrib_left mult.left_commute)
  also have "\<dots> = (\<Sum>i<n. t i * ip n x (u i))"
    by (subst sum.swap) (simp add: ip_def sum_distrib_left)
  also have "\<dots> = (\<Sum>i<n. (ip n x (u i))\<^sup>2 / ip n (u i) (u i))"
    by (simp add: t_def power2_eq_square)
  finally show ?thesis .
qed

section \<open>Eigenvectors of symmetric and of Jacobi matrices\<close>

lemma dot_ip:
  assumes "length u = n" "length v = n"
  shows "dot u v = ip n ((!) u) ((!) v)"
proof -
  have "sum_list (map2 (*) u v) = (\<Sum>i = 0..<length (map2 (*) u v). map2 (*) u v ! i)"
    by (rule sum_list_sum_nth)
  also have "\<dots> = (\<Sum>i<n. u ! i * v ! i)"
    using assms by (auto simp: atLeast0LessThan intro!: sum.cong)
  finally show ?thesis by (simp add: dot_def ip_def)
qed

lemma norm2_dot: "norm2 v = dot v v"
  by (induction v) (simp_all add: norm2_def dot_def power2_eq_square)

lemma norm2_pos:
  assumes "\<exists>c \<in> set v. c \<noteq> 0"
  shows "0 < norm2 v"
  using assms
proof (induction v)
  case Nil
  then show ?case by simp
next
  case (Cons a v)
  have nonneg: "0 \<le> norm2 v"
    by (auto simp: norm2_def intro!: sum_list_nonneg)
  show ?case
  proof (cases "a = 0")
    case True
    with Cons show ?thesis by (simp add: norm2_def)
  next
    case False
    then have "0 < a\<^sup>2" by simp
    with nonneg show ?thesis by (simp add: norm2_def add_pos_nonneg)
  qed
qed

lemma eigen_rows:
  assumes "square A" "eigenvector A lam v" "i < length A"
  shows "ip (length A) ((!) (A ! i)) ((!) v) = lam * v ! i"
proof -
  have len: "length v = length A" "length (A ! i) = length A"
    using assms by (auto simp: eigenvector_def square_def)
  have "mat_vec A v ! i = map ((*) lam) v ! i"
    using assms by (simp add: eigenvector_def)
  then have "dot (A ! i) v = lam * v ! i"
    using assms(3) len by (simp add: mat_vec_def)
  then show ?thesis using dot_ip [OF len(2) len(1)] by simp
qed

lemma eigenvector_nonzero:
  assumes "eigenvector A lam v"
  shows "dot v v \<noteq> 0"
  using norm2_pos [of v] assms by (simp add: eigenvector_def norm2_dot)

text \<open>Eigenvectors of a symmetric matrix for different eigenvalues are orthogonal.\<close>

lemma symmetric_eigenvectors_orthogonal:
  assumes sq: "square A" and sym: "symmetric A"
      and u: "eigenvector A lam u" and v: "eigenvector A mu v" and ne: "lam \<noteq> mu"
  shows "dot u v = 0"
proof -
  define n where "n = length A"
  have len: "length u = n" "length v = n"
    using u v by (simp_all add: eigenvector_def n_def)
  have ru: "\<And>i. i < n \<Longrightarrow> (\<Sum>j<n. A ! i ! j * u ! j) = lam * u ! i"
    using eigen_rows [OF sq u] by (simp add: ip_def n_def)
  have rv: "\<And>i. i < n \<Longrightarrow> (\<Sum>j<n. A ! i ! j * v ! j) = mu * v ! i"
    using eigen_rows [OF sq v] by (simp add: ip_def n_def)
  have "lam * dot u v = (\<Sum>i<n. (lam * u ! i) * v ! i)"
    by (simp add: dot_ip [OF len] ip_def sum_distrib_left mult.assoc)
  also have "\<dots> = (\<Sum>i<n. (\<Sum>j<n. A ! i ! j * u ! j) * v ! i)"
    by (rule sum.cong) (simp_all add: ru)
  also have "\<dots> = (\<Sum>i<n. \<Sum>j<n. A ! i ! j * u ! j * v ! i)"
    by (simp add: sum_distrib_right)
  also have "\<dots> = (\<Sum>j<n. \<Sum>i<n. A ! i ! j * u ! j * v ! i)"
    by (rule sum.swap)
  also have "\<dots> = (\<Sum>j<n. \<Sum>i<n. u ! j * (A ! j ! i * v ! i))"
  proof (intro sum.cong refl)
    fix j i assume "j \<in> {..<n}" "i \<in> {..<n}"
    then have "A ! i ! j = A ! j ! i"
      using sym by (simp add: symmetric_def n_def)
    then show "A ! i ! j * u ! j * v ! i = u ! j * (A ! j ! i * v ! i)" by simp
  qed
  also have "\<dots> = (\<Sum>j<n. u ! j * (\<Sum>i<n. A ! j ! i * v ! i))"
    by (simp add: sum_distrib_left)
  also have "\<dots> = (\<Sum>j<n. u ! j * (mu * v ! j))"
    by (rule sum.cong) (simp_all add: rv)
  also have "\<dots> = mu * dot u v"
    by (simp add: dot_ip [OF len] ip_def sum_distrib_left mult.left_commute)
  finally have "(lam - mu) * dot u v = 0"
    by (simp add: left_diff_distrib)
  with ne show ?thesis by simp
qed

lemma Jacobi_matrix_square: "square (Jacobi_matrix sq alpha beta)"
  by (auto simp: square_def Jacobi_matrix_def)

lemma Jacobi_matrix_length: "length (Jacobi_matrix sq alpha beta) = length alpha"
  by (simp add: Jacobi_matrix_def)

lemma Jacobi_matrix_symmetric: "symmetric (Jacobi_matrix sq alpha beta)"
  by (auto simp: symmetric_def Jacobi_matrix_def)

text \<open>
  A solution of the eigen-equations of a Jacobi matrix whose off-diagonal entries are
  not zero is determined by its first component: row \<open>k\<close> gives component \<open>k + 1\<close> from
  the components before it.
\<close>

lemma Jacobi_first_component_zero:
  fixes f :: "nat \<Rightarrow> real"
  assumes off: "\<And>k. 1 \<le> k \<Longrightarrow> k < length alpha \<Longrightarrow> sq (beta ! k) \<noteq> 0"
      and rows: "\<And>i. i < length alpha \<Longrightarrow>
                  (\<Sum>j<length alpha. Jacobi_matrix sq alpha beta ! i ! j * f j) = lam * f i"
      and f0: "f 0 = 0"
  shows "k < length alpha \<Longrightarrow> f k = 0"
proof (induction k rule: less_induct)
  case (less k)
  define n where "n = length alpha"
  show ?case
  proof (cases k)
    case 0
    with f0 show ?thesis by simp
  next
    case (Suc m)
    have m: "m < n" "Suc m < n" using less.prems Suc by (simp_all add: n_def)
    have prev: "\<And>j. j \<le> m \<Longrightarrow> f j = 0"
      using less.IH less.prems Suc by simp
    have "(\<Sum>j<n. Jacobi_matrix sq alpha beta ! m ! j * f j) =
          (\<Sum>j<n. if j = Suc m then sq (beta ! Suc m) * f (Suc m) else 0)"
    proof (rule sum.cong [OF refl])
      fix j assume "j \<in> {..<n}"
      then have j: "j < n" by simp
      show "Jacobi_matrix sq alpha beta ! m ! j * f j =
            (if j = Suc m then sq (beta ! Suc m) * f (Suc m) else 0)"
      proof (cases "j \<le> m")
        case True
        then show ?thesis using prev [of j] by simp
      next
        case False
        then show ?thesis using j m by (auto simp: Jacobi_matrix_def n_def)
      qed
    qed
    also have "\<dots> = sq (beta ! Suc m) * f (Suc m)"
      using m by simp
    finally have "sq (beta ! Suc m) * f (Suc m) = lam * f m"
      using rows [of m] m by (simp add: n_def)
    then have "sq (beta ! Suc m) * f (Suc m) = 0"
      using prev [of m] by simp
    moreover have "sq (beta ! Suc m) \<noteq> 0"
      using off [of "Suc m"] m by (simp add: n_def)
    ultimately show ?thesis using Suc by simp
  qed
qed

lemma Jacobi_eigenvector_first:
  assumes off: "\<And>k. 1 \<le> k \<Longrightarrow> k < length alpha \<Longrightarrow> sq (beta ! k) \<noteq> 0"
      and v: "eigenvector (Jacobi_matrix sq alpha beta) lam v"
  shows "v ! 0 \<noteq> 0"
proof
  assume v0: "v ! 0 = 0"
  have len: "length v = length alpha"
    using v by (simp add: eigenvector_def Jacobi_matrix_length)
  have rows: "\<And>i. i < length alpha \<Longrightarrow>
      (\<Sum>j<length alpha. Jacobi_matrix sq alpha beta ! i ! j * v ! j) = lam * v ! i"
    using eigen_rows [OF Jacobi_matrix_square v]
    by (simp add: ip_def Jacobi_matrix_length)
  have "\<And>k. k < length alpha \<Longrightarrow> v ! k = 0"
    using Jacobi_first_component_zero [of alpha sq beta "(!) v" lam, OF off rows v0] by simp
  then have "\<forall>c \<in> set v. c = 0"
    using len by (auto simp: in_set_conv_nth)
  with v show False by (auto simp: eigenvector_def)
qed

text \<open>Two eigenvectors of such a matrix for one eigenvalue are proportional, hence
  not orthogonal: every eigenvalue is simple.\<close>

lemma Jacobi_eigenvectors_proportional:
  assumes off: "\<And>k. 1 \<le> k \<Longrightarrow> k < length alpha \<Longrightarrow> sq (beta ! k) \<noteq> 0"
      and u: "eigenvector (Jacobi_matrix sq alpha beta) lam u"
      and v: "eigenvector (Jacobi_matrix sq alpha beta) lam v"
      and k: "k < length alpha"
  shows "u ! 0 * v ! k = v ! 0 * u ! k"
proof -
  define n where "n = length alpha"
  define f where "f = (\<lambda>k. u ! 0 * v ! k - v ! 0 * u ! k)"
  have ru: "\<And>i. i < n \<Longrightarrow> (\<Sum>j<n. Jacobi_matrix sq alpha beta ! i ! j * u ! j) = lam * u ! i"
    using eigen_rows [OF Jacobi_matrix_square u] by (simp add: ip_def Jacobi_matrix_length n_def)
  have rv: "\<And>i. i < n \<Longrightarrow> (\<Sum>j<n. Jacobi_matrix sq alpha beta ! i ! j * v ! j) = lam * v ! i"
    using eigen_rows [OF Jacobi_matrix_square v] by (simp add: ip_def Jacobi_matrix_length n_def)
  have rows: "(\<Sum>j<length alpha. Jacobi_matrix sq alpha beta ! i ! j * f j) = lam * f i"
    if "i < length alpha" for i
  proof -
    have "(\<Sum>j<n. Jacobi_matrix sq alpha beta ! i ! j * f j) =
          u ! 0 * (\<Sum>j<n. Jacobi_matrix sq alpha beta ! i ! j * v ! j)
          - v ! 0 * (\<Sum>j<n. Jacobi_matrix sq alpha beta ! i ! j * u ! j)"
      by (simp add: f_def right_diff_distrib sum_subtractf sum_distrib_left mult.left_commute)
    then show ?thesis
      using that ru [of i] rv [of i] by (simp add: n_def f_def right_diff_distrib)
  qed
  have f0: "f 0 = 0" by (simp add: f_def)
  show ?thesis
    using Jacobi_first_component_zero [of alpha sq beta f lam, OF off rows f0 k]
    by (simp add: f_def)
qed

lemma Jacobi_same_eigenvalue_not_orthogonal:
  assumes off: "\<And>k. 1 \<le> k \<Longrightarrow> k < length alpha \<Longrightarrow> sq (beta ! k) \<noteq> 0"
      and u: "eigenvector (Jacobi_matrix sq alpha beta) lam u"
      and v: "eigenvector (Jacobi_matrix sq alpha beta) lam v"
  shows "dot u v \<noteq> 0"
proof
  assume orth: "dot u v = 0"
  define n where "n = length alpha"
  have len: "length u = n" "length v = n"
    using u v by (simp_all add: eigenvector_def Jacobi_matrix_length n_def)
  have propo: "\<And>k. k < n \<Longrightarrow> u ! 0 * v ! k = v ! 0 * u ! k"
    using Jacobi_eigenvectors_proportional [of alpha sq beta lam u v] off u v
    by (simp add: n_def)
  have "u ! 0 * dot v v = (\<Sum>k<n. (u ! 0 * v ! k) * v ! k)"
    by (simp add: dot_ip [OF len(2) len(2)] ip_def sum_distrib_left mult.assoc)
  also have "\<dots> = (\<Sum>k<n. (v ! 0 * u ! k) * v ! k)"
    by (rule sum.cong) (simp_all add: propo)
  also have "\<dots> = v ! 0 * dot u v"
    by (simp add: dot_ip [OF len] ip_def sum_distrib_left mult.assoc)
  finally have "u ! 0 * dot v v = 0" using orth by simp
  then show False
    using Jacobi_eigenvector_first [OF off u] eigenvector_nonzero [OF v] by simp
qed




text \<open>The loop over the items of \<open>eigenvects()\<close> when every item passes the two
  assertions: each weight is \<open>beta[0]\<close> times \<open>vec[0]**2 / norm2\<close>, simplified.\<close>

lemma collect_items_weights:
  assumes "beta \<noteq> []"
      and "\<forall>item \<in> set items. fst (snd item) = 1 \<and> length (snd (snd item)) = 1
             \<and> hd (snd (snd item)) \<noteq> []"
  shows "collect_items L beta items =
           Inr (map (\<lambda>item. (fst item,
                  sympy_simplify L (hd beta * (hd (snd (snd item)) ! 0)\<^sup>2
                                      / norm2 (hd (snd (snd item)))))) items)"
  using assms(2)
proof (induction items)
  case Nil
  show ?case by simp
next
  case (Cons it items)
  obtain val m vec where it: "it = (val, m, vec)" by (cases it) auto
  obtain b0 bs where beta: "beta = b0 # bs" using assms(1) by (cases beta) auto
  from Cons.prems it have m: "m = 1" "length vec = 1" "hd vec \<noteq> []" by simp_all
  then obtain v0 vs where v: "hd vec = v0 # vs" by (cases "hd vec") auto
  from Cons have IH: "collect_items L beta items =
      Inr (map (\<lambda>item. (fst item,
             sympy_simplify L (hd beta * (hd (snd (snd item)) ! 0)\<^sup>2
                                 / norm2 (hd (snd (snd item)))))) items)"
    by simp
  show ?case
    using IH by (simp add: it m v beta)
qed


lemma numpy_structure:
  assumes "isinstance_ndarray alpha" "isinstance_ndarray beta"
      and "length (elems beta) = length (elems alpha)" "elems alpha \<noteq> []"
  shows "gauss_from_coefficients_numpy L alpha beta =
     (case eig_banded L [map (numpy_sqrt L) (elems beta), elems alpha] of
        Inl e \<Rightarrow> Inl e
      | Inr (x, V) \<Rightarrow>
          (case V of
             [] \<Rightarrow> Inl IndexError
           | V0 # Vs \<Rightarrow>
               Inr (x, map (\<lambda>v. hd (elems beta) * scipy_real L (scipy_power L v 2)) V0)))"
proof -
  obtain b0 bs where be: "elems beta = b0 # bs"
    using assms(3,4) by (cases "elems beta") auto
  show ?thesis
    using assms(1,2,3)
    by (simp add: gauss_from_coefficients_numpy_def be split: sum.splits prod.splits list.splits)
qed




section \<open>A full set of orthogonal eigenvectors\<close>

lemma ip_unit:
  assumes "0 < n"
  shows "ip n (\<lambda>k. if k = 0 then 1 else 0) f = f 0"
proof -
  have "ip n (\<lambda>k. if k = 0 then 1 else 0) f = (\<Sum>k<n. if k = 0 then f 0 else 0)"
    unfolding ip_def by (rule sum.cong) auto
  also have "\<dots> = f 0" using assms by simp
  finally show ?thesis .
qed

lemma first_components_sum:
  assumes n: "0 < n"
      and len: "\<And>i. i < n \<Longrightarrow> length (us ! i) = n"
      and nz: "\<And>i. i < n \<Longrightarrow> dot (us ! i) (us ! i) \<noteq> 0"
      and orth: "\<And>i j. i < n \<Longrightarrow> j < n \<Longrightarrow> i \<noteq> j \<Longrightarrow> dot (us ! i) (us ! j) = 0"
  shows "(\<Sum>i<n. (us ! i ! 0)\<^sup>2 / norm2 (us ! i)) = 1"
proof -
  define e0 :: "nat \<Rightarrow> real" where "e0 = (\<lambda>k. if k = 0 then 1 else 0)"
  define u where "u = (\<lambda>i. (!) (us ! i))"
  have dots: "ip n (u i) (u j) = dot (us ! i) (us ! j)" if "i < n" "j < n" for i j
    using dot_ip [of "us ! i" n "us ! j"] len that by (simp add: u_def)
  have "ip n e0 e0 = (\<Sum>i<n. (ip n e0 (u i))\<^sup>2 / ip n (u i) (u i))"
    by (rule parseval) (simp_all add: dots orth nz)
  moreover have "ip n e0 e0 = 1"
    using ip_unit [OF n, of e0] by (simp add: e0_def)
  moreover have "ip n e0 (u i) = us ! i ! 0" for i
    using ip_unit [OF n, of "u i"] by (simp add: e0_def u_def)
  ultimately have "1 = (\<Sum>i<n. (us ! i ! 0)\<^sup>2 / ip n (u i) (u i))" by simp
  also have "\<dots> = (\<Sum>i<n. (us ! i ! 0)\<^sup>2 / norm2 (us ! i))"
    by (rule sum.cong) (simp_all add: dots norm2_dot)
  finally show ?thesis by simp
qed

lemma orthogonal_to_all_is_zero:
  assumes len: "\<And>i. i < n \<Longrightarrow> length (us ! i) = n" and leny: "length y = n"
      and nz: "\<And>i. i < n \<Longrightarrow> dot (us ! i) (us ! i) \<noteq> 0"
      and orth: "\<And>i j. i < n \<Longrightarrow> j < n \<Longrightarrow> i \<noteq> j \<Longrightarrow> dot (us ! i) (us ! j) = 0"
      and y: "\<And>i. i < n \<Longrightarrow> dot y (us ! i) = 0"
  shows "dot y y = 0"
proof -
  define u where "u = (\<lambda>i. (!) (us ! i))"
  have dots: "ip n (u i) (u j) = dot (us ! i) (us ! j)" if "i < n" "j < n" for i j
    using dot_ip [of "us ! i" n "us ! j"] len that by (simp add: u_def)
  have doty: "ip n ((!) y) (u i) = dot y (us ! i)" if "i < n" for i
    using dot_ip [of y n "us ! i"] len leny that by (simp add: u_def)
  have "ip n ((!) y) ((!) y) = (\<Sum>i<n. (ip n ((!) y) (u i))\<^sup>2 / ip n (u i) (u i))"
    by (rule parseval) (simp_all add: dots orth nz)
  also have "\<dots> = (\<Sum>i<n. 0)"
    by (rule sum.cong) (simp_all add: doty y)
  finally show ?thesis using dot_ip [OF leny leny] by simp
qed

text \<open>\<open>n\<close> pairwise orthogonal eigenvectors of a symmetric \<open>n\<close> by \<open>n\<close> matrix: their
  eigenvalues are all the eigenvalues of the matrix.\<close>

lemma eigenvalues_complete:
  assumes sq: "square A" and sym: "symmetric A" and n: "length A = n"
      and lams: "length lams = n"
      and eig: "\<And>i. i < n \<Longrightarrow> eigenvector A (lams ! i) (us ! i)"
      and orth: "\<And>i j. i < n \<Longrightarrow> j < n \<Longrightarrow> i \<noteq> j \<Longrightarrow> dot (us ! i) (us ! j) = 0"
  shows "set lams = eigenvalues A"
proof
  show "set lams \<subseteq> eigenvalues A"
  proof
    fix mu assume "mu \<in> set lams"
    then obtain i where "i < n" "mu = lams ! i"
      using lams by (auto simp: in_set_conv_nth)
    then show "mu \<in> eigenvalues A"
      using eig [of i] by (auto simp: eigenvalues_def)
  qed
next
  show "eigenvalues A \<subseteq> set lams"
  proof
    fix mu assume "mu \<in> eigenvalues A"
    then obtain y where y: "eigenvector A mu y" by (auto simp: eigenvalues_def)
    show "mu \<in> set lams"
    proof (rule ccontr)
      assume notin: "mu \<notin> set lams"
      have "dot y (us ! i) = 0" if "i < n" for i
      proof -
        have "mu \<noteq> lams ! i" using notin that lams by auto
        then show ?thesis
          using symmetric_eigenvectors_orthogonal [OF sq sym y eig [OF that]] by simp
      qed
      moreover have "length (us ! i) = n" if "i < n" for i
        using eig [OF that] n by (simp add: eigenvector_def)
      moreover have "length y = n" using y n by (simp add: eigenvector_def)
      moreover have "dot (us ! i) (us ! i) \<noteq> 0" if "i < n" for i
        using eigenvector_nonzero [OF eig [OF that]] .
      ultimately have "dot y y = 0"
        using orthogonal_to_all_is_zero [of n us y] orth by blast
      then show False using eigenvector_nonzero [OF y] by simp
    qed
  qed
qed

lemma Jacobi_eigenvalues_distinct:
  assumes off: "\<And>k. 1 \<le> k \<Longrightarrow> k < length alpha \<Longrightarrow> sq (beta ! k) \<noteq> 0"
      and lams: "length lams = n"
      and eig: "\<And>i. i < n \<Longrightarrow> eigenvector (Jacobi_matrix sq alpha beta) (lams ! i) (us ! i)"
      and orth: "\<And>i j. i < n \<Longrightarrow> j < n \<Longrightarrow> i \<noteq> j \<Longrightarrow> dot (us ! i) (us ! j) = 0"
  shows "distinct lams"
proof -
  have "lams ! i \<noteq> lams ! j" if "i < n" "j < n" "i \<noteq> j" for i j
  proof
    assume same: "lams ! i = lams ! j"
    have "dot (us ! i) (us ! j) \<noteq> 0"
      using Jacobi_same_eigenvalue_not_orthogonal [of alpha sq beta "lams ! i" "us ! i" "us ! j"]
        off eig [OF that(1)] eig [OF that(2)] same by simp
    with orth [OF that] show False by simp
  qed
  then show ?thesis using lams by (auto simp: distinct_conv_nth)
qed

lemma eigenvector_normalize:
  assumes v: "eigenvector A lam v"
  defines "u \<equiv> map (\<lambda>c. c / sqrt (norm2 v)) v"
  shows "eigenvector A lam u" "norm2 u = 1" "v \<noteq> [] \<Longrightarrow> (u ! 0)\<^sup>2 = (v ! 0)\<^sup>2 / norm2 v"
proof -
  have pos: "0 < norm2 v" using v norm2_pos [of v] by (simp add: eigenvector_def)
  define s where "s = sqrt (norm2 v)"
  have s: "0 < s" "s\<^sup>2 = norm2 v" using pos by (simp_all add: s_def)
  have u: "u = map (\<lambda>c. c / s) v" by (simp add: u_def s_def)
  have scale_dot: "dot row (map (\<lambda>c. c / s) v) = dot row v / s" for row
  proof (induction row arbitrary: v)
    case Nil
    show ?case by (simp add: dot_def)
  next
    case (Cons a row)
    show ?case
    proof (cases v)
      case Nil
      then show ?thesis by (simp add: dot_def)
    next
      case (Cons b v')
      with Cons.IH [of v'] show ?thesis
        by (simp add: dot_def add_divide_distrib)
    qed
  qed
  have "mat_vec A u = map (\<lambda>c. c / s) (mat_vec A v)"
    by (simp add: mat_vec_def u scale_dot)
  also have "\<dots> = map ((*) lam) u"
    using v by (simp add: eigenvector_def u)
  finally have eq: "mat_vec A u = map ((*) lam) u" .
  have "\<exists>c \<in> set u. c \<noteq> 0"
    using v s(1) by (auto simp: eigenvector_def u)
  with eq v show "eigenvector A lam u"
    by (simp add: eigenvector_def u)
  have "norm2 u = sum_list (map (\<lambda>c. c\<^sup>2 / s\<^sup>2) v)"
    by (simp add: norm2_def u comp_def power_divide)
  also have "\<dots> = norm2 v / s\<^sup>2"
    by (induction v) (simp_all add: norm2_def add_divide_distrib)
  finally show "norm2 u = 1" using s pos by simp
  show "(u ! 0)\<^sup>2 = (v ! 0)\<^sup>2 / norm2 v" if "v \<noteq> []"
    using that s by (cases v) (simp_all add: u power_divide)
qed

section \<open>The rule read off an orthonormal eigen-decomposition\<close>

lemma col_first:
  assumes "V \<noteq> []"
  shows "col V j ! 0 = V ! 0 ! j"
  using assms by (cases V) (simp_all add: col_def)

lemma col_length: "length (col V j) = length V"
  by (simp add: col_def)

lemma eigensystem_rule:
  fixes b0 :: real
  assumes sys: "orthonormal_eigensystem (Jacobi_matrix sq alpha beta) x V"
      and n: "alpha \<noteq> []"
  defines "w \<equiv> map (\<lambda>v. b0 * v\<^sup>2) (V ! 0)"
  shows "Golub_Welsch (Jacobi_matrix sq alpha beta) b0 x w"
    and "sum_list w = b0"
    and "(\<And>k. 1 \<le> k \<Longrightarrow> k < length alpha \<Longrightarrow> sq (beta ! k) \<noteq> 0) \<Longrightarrow> sorted_wrt (<) x"
    and "(\<And>k. 1 \<le> k \<Longrightarrow> k < length alpha \<Longrightarrow> sq (beta ! k) \<noteq> 0) \<Longrightarrow> 0 < b0
          \<Longrightarrow> \<forall>y \<in> set w. 0 < y"
    and "length w = length alpha"
    and "\<And>j. j < length alpha \<Longrightarrow> \<bar>V ! 0 ! j\<bar> \<le> 1"
proof -
  define J where "J = Jacobi_matrix sq alpha beta"
  define n where "n = length alpha"
  define us where "us = map (col V) [0..<n]"
  have npos: "0 < n" using n by (simp add: n_def)
  have lenJ: "length J = n" by (simp add: J_def n_def Jacobi_matrix_length)
  have len: "length x = n" "length V = n" "\<forall>row \<in> set V. length row = n"
    using sys by (simp_all add: orthonormal_eigensystem_def Jacobi_matrix_length n_def)
  have Vne: "V \<noteq> []" using len npos by auto
  have row0: "length (V ! 0) = n" using len npos by simp
  have lus: "length us = n" by (simp add: us_def)
  have eig: "eigenvector J (x ! i) (us ! i)" if "i < n" for i
    using sys that by (simp add: orthonormal_eigensystem_def Jacobi_matrix_length n_def J_def us_def)
  have dots: "dot (us ! i) (us ! j) = (if i = j then 1 else 0)" if "i < n" "j < n" for i j
    using sys that by (simp add: orthonormal_eigensystem_def Jacobi_matrix_length n_def us_def)
  have orth: "dot (us ! i) (us ! j) = 0" if "i < n" "j < n" "i \<noteq> j" for i j
    using dots that by simp
  have unit: "norm2 (us ! i) = 1" if "i < n" for i
    using dots [OF that that] by (simp add: norm2_dot)
  have first: "us ! i ! 0 = V ! 0 ! i" if "i < n" for i
    using that col_first [OF Vne] by (simp add: us_def)
  have wn: "w ! i = b0 * (us ! i ! 0)\<^sup>2" if "i < n" for i
    using that row0 first by (simp add: w_def)
  have "set x = eigenvalues J"
    using eigenvalues_complete [of J n x us] eig orth len(1) lenJ
      Jacobi_matrix_square [of sq alpha beta] Jacobi_matrix_symmetric [of sq alpha beta]
    by (simp add: J_def)
  moreover have "\<exists>us. length us = n
      \<and> (\<forall>j<n. eigenvector J (x ! j) (us ! j) \<and> norm2 (us ! j) = 1 \<and> w ! j = b0 * (us ! j ! 0)\<^sup>2)
      \<and> (\<forall>i<n. \<forall>j<n. i \<noteq> j \<longrightarrow> dot (us ! i) (us ! j) = 0)"
    using eig unit wn orth lus by (intro exI [of _ us]) simp
  ultimately show "Golub_Welsch (Jacobi_matrix sq alpha beta) b0 x w"
    using len(1) row0 lenJ by (simp add: Golub_Welsch_def J_def w_def)
  show "length w = length alpha" using row0 by (simp add: w_def n_def)
  show "\<bar>V ! 0 ! j\<bar> \<le> 1" if "j < length alpha" for j
  proof -
    have j: "j < n" using that by (simp add: n_def)
    have "us ! j \<noteq> []" using eig [OF j] npos lenJ by (auto simp: eigenvector_def)
    then have "(us ! j ! 0)\<^sup>2 \<le> norm2 (us ! j)"
      by (cases "us ! j") (auto simp: norm2_def intro!: sum_list_nonneg)
    then have "(V ! 0 ! j)\<^sup>2 \<le> 1" using unit [OF j] first [OF j] by simp
    then show ?thesis by (simp add: abs_square_le_1)
  qed
  have "(\<Sum>i<n. (us ! i ! 0)\<^sup>2 / norm2 (us ! i)) = 1"
  proof (rule first_components_sum [OF npos])
    show "length (us ! i) = n" if "i < n" for i
      using that len by (simp add: us_def col_length)
    show "dot (us ! i) (us ! i) \<noteq> 0" if "i < n" for i
      using dots [OF that that] by simp
  qed (rule orth)
  then have one: "(\<Sum>i<n. (V ! 0 ! i)\<^sup>2) = 1"
    using unit first by simp
  have "sum_list w = (\<Sum>i<n. w ! i)"
    using row0 by (simp add: sum_list_sum_nth w_def atLeast0LessThan)
  also have "\<dots> = (\<Sum>i<n. b0 * (V ! 0 ! i)\<^sup>2)"
    by (rule sum.cong) (simp_all add: wn first)
  also have "\<dots> = b0" using one by (simp add: sum_distrib_left [symmetric])
  finally show "sum_list w = b0" .
  {
    assume off: "\<And>k. 1 \<le> k \<Longrightarrow> k < length alpha \<Longrightarrow> sq (beta ! k) \<noteq> 0"
    have "distinct x"
      using Jacobi_eigenvalues_distinct [of alpha sq beta x n us] off len(1) eig orth
      by (simp add: J_def)
    moreover have "sorted x" using sys by (simp add: orthonormal_eigensystem_def)
    ultimately show "sorted_wrt (<) x" by (simp add: strict_sorted_iff)
    assume b0: "0 < b0"
    show "\<forall>y \<in> set w. 0 < y"
    proof
      fix y assume "y \<in> set w"
      then obtain i where i: "i < n" "y = w ! i"
        using row0 by (auto simp: in_set_conv_nth w_def)
      have "us ! i ! 0 \<noteq> 0"
        using Jacobi_eigenvector_first [of alpha sq beta "x ! i" "us ! i"] off eig [OF i(1)]
        by (simp add: J_def)
      then show "0 < y" using b0 i wn by simp
    qed
  }
qed

section \<open>A solver that is accurate to a tolerance\<close>

text \<open>The weight computed from a first component \<open>z\<close> within \<open>eps\<close> of the exact one \<open>u\<close>,
  squared with an error of at most \<open>eps\<close>.\<close>

lemma weight_error:
  fixes b0 z u q eps :: real
  assumes "\<bar>z - u\<bar> \<le> eps" "\<bar>q - z\<^sup>2\<bar> \<le> eps" "\<bar>u\<bar> \<le> 1"
  shows "\<bar>b0 * q - b0 * u\<^sup>2\<bar> \<le> \<bar>b0\<bar> * eps * (3 + eps)"
proof -
  have e0: "0 \<le> eps" using assms(1) by linarith
  have "\<bar>z + u\<bar> \<le> eps + 2" using assms(1,3) by linarith
  then have "\<bar>z - u\<bar> * \<bar>z + u\<bar> \<le> eps * (eps + 2)"
    using assms(1) e0 by (intro mult_mono) simp_all
  moreover have "\<bar>z\<^sup>2 - u\<^sup>2\<bar> = \<bar>z - u\<bar> * \<bar>z + u\<bar>"
    by (simp add: abs_mult [symmetric] power2_eq_square algebra_simps)
  ultimately have "\<bar>z\<^sup>2 - u\<^sup>2\<bar> \<le> eps * (eps + 2)" by simp
  then have "\<bar>q - u\<^sup>2\<bar> \<le> eps + eps * (eps + 2)" using assms(2) by linarith
  then have "\<bar>q - u\<^sup>2\<bar> \<le> eps * (3 + eps)" by (simp add: algebra_simps)
  then have "\<bar>b0\<bar> * \<bar>q - u\<^sup>2\<bar> \<le> \<bar>b0\<bar> * (eps * (3 + eps))"
    by (intro mult_left_mono) simp_all
  moreover have "\<bar>b0 * q - b0 * u\<^sup>2\<bar> = \<bar>b0\<bar> * \<bar>q - u\<^sup>2\<bar>"
    by (simp add: abs_mult [symmetric] right_diff_distrib)
  ultimately show ?thesis by (simp add: mult.assoc)
qed

lemma near_sum:
  fixes ws w :: "real list"
  assumes "length ws = n" "length w = n" "\<forall>j<n. \<bar>ws ! j - w ! j\<bar> \<le> c"
  shows "\<bar>sum_list ws - sum_list w\<bar> \<le> real n * c"
proof -
  have "sum_list ws - sum_list w = (\<Sum>i<n. ws ! i - w ! i)"
    using assms(1,2) by (simp add: sum_list_sum_nth atLeast0LessThan sum_subtractf)
  also have "\<bar>\<dots>\<bar> \<le> (\<Sum>i<n. \<bar>ws ! i - w ! i\<bar>)" by (rule sum_abs)
  also have "\<dots> \<le> (\<Sum>i<n. c)" using assms(3) by (intro sum_mono) simp
  finally show ?thesis by simp
qed

lemma near_sorted:
  fixes xs x :: "real list"
  assumes "sorted x" "length x = n" "length xs = n" "\<forall>j<n. \<bar>xs ! j - x ! j\<bar> \<le> eps"
      and gap: "\<forall>j. j + 1 < n \<longrightarrow> 2 * eps < x ! (j + 1) - x ! j"
  shows "sorted_wrt (<) xs"
  unfolding sorted_wrt_iff_nth_less
proof (intro allI impI)
  fix i j assume ij: "i < j" "j < length xs"
  then have "x ! (i + 1) \<le> x ! j"
    using assms(1,2,3) by (intro sorted_nth_mono) simp_all
  moreover have "2 * eps < x ! (i + 1) - x ! i" using gap ij assms(3) by simp
  moreover have "\<bar>xs ! i - x ! i\<bar> \<le> eps" "\<bar>xs ! j - x ! j\<bar> \<le> eps"
    using assms(3,4) ij by simp_all
  ultimately show "xs ! i < xs ! j" by linarith
qed

text \<open>What follows for nodes \<open>xs\<close> and weights \<open>ws\<close> within the tolerance of the rule read
  off an exact eigen-decomposition.\<close>

lemma near_rule:
  fixes b0 eps :: real
  assumes sys: "orthonormal_eigensystem (Jacobi_matrix sq alpha beta) x V"
      and ne: "alpha \<noteq> []"
      and lens: "length xs = length alpha" "length ws = length alpha"
      and near: "\<forall>j<length alpha. \<bar>xs ! j - x ! j\<bar> \<le> eps
                   \<and> \<bar>ws ! j - b0 * (V ! 0 ! j)\<^sup>2\<bar> \<le> \<bar>b0\<bar> * eps * (3 + eps)"
  shows "\<bar>sum_list ws - b0\<bar> \<le> real (length alpha) * (\<bar>b0\<bar> * eps * (3 + eps))"
    and "(\<forall>j. j + 1 < length alpha \<longrightarrow> 2 * eps < x ! (j + 1) - x ! j)
           \<Longrightarrow> sorted_wrt (<) xs"
    and "(\<And>k. 1 \<le> k \<Longrightarrow> k < length alpha \<Longrightarrow> sq (beta ! k) \<noteq> 0) \<Longrightarrow> 0 < b0
           \<Longrightarrow> \<forall>j<length alpha. 0 < b0 * (V ! 0 ! j)\<^sup>2"
    and "\<forall>j<length alpha. \<bar>b0\<bar> * eps * (3 + eps) < b0 * (V ! 0 ! j)\<^sup>2 \<longrightarrow> 0 < ws ! j"
    and "eps = 0 \<Longrightarrow> xs = x"
    and "eps = 0 \<Longrightarrow> ws = map (\<lambda>v. b0 * v\<^sup>2) (V ! 0)"
proof -
  define w where "w = map (\<lambda>v. b0 * v\<^sup>2) (V ! 0)"
  have lw: "length w = length alpha"
    unfolding w_def by (rule eigensystem_rule(5) [OF sys ne])
  have wj: "w ! j = b0 * (V ! 0 ! j)\<^sup>2" if "j < length alpha" for j
    using that lw by (simp add: w_def)
  have "\<bar>sum_list ws - sum_list w\<bar> \<le> real (length alpha) * (\<bar>b0\<bar> * eps * (3 + eps))"
    using near by (intro near_sum [OF lens(2) lw]) (simp add: wj)
  moreover have "sum_list w = b0"
    unfolding w_def by (rule eigensystem_rule(2) [OF sys ne])
  ultimately show "\<bar>sum_list ws - b0\<bar> \<le> real (length alpha) * (\<bar>b0\<bar> * eps * (3 + eps))"
    by simp
  have sx: "sorted x" "length x = length alpha"
    using sys by (simp_all add: orthonormal_eigensystem_def Jacobi_matrix_length)
  show "sorted_wrt (<) xs"
    if "\<forall>j. j + 1 < length alpha \<longrightarrow> 2 * eps < x ! (j + 1) - x ! j"
    using near that by (intro near_sorted [OF sx lens(1), of eps]) simp_all
  show "\<forall>j<length alpha. 0 < b0 * (V ! 0 ! j)\<^sup>2"
    if off: "\<And>k. 1 \<le> k \<Longrightarrow> k < length alpha \<Longrightarrow> sq (beta ! k) \<noteq> 0" and b0: "0 < b0"
  proof (intro allI impI)
    fix j assume j: "j < length alpha"
    have "\<forall>y \<in> set w. 0 < y"
      unfolding w_def by (rule eigensystem_rule(4) [OF sys ne off b0])
    moreover have "w ! j \<in> set w" using j lw by simp
    ultimately show "0 < b0 * (V ! 0 ! j)\<^sup>2" using wj [OF j] by auto
  qed
  show "\<forall>j<length alpha. \<bar>b0\<bar> * eps * (3 + eps) < b0 * (V ! 0 ! j)\<^sup>2 \<longrightarrow> 0 < ws ! j"
  proof (intro allI impI)
    fix j assume j: "j < length alpha"
      and big: "\<bar>b0\<bar> * eps * (3 + eps) < b0 * (V ! 0 ! j)\<^sup>2"
    have "\<bar>ws ! j - b0 * (V ! 0 ! j)\<^sup>2\<bar> \<le> \<bar>b0\<bar> * eps * (3 + eps)" using near j by simp
    with big show "0 < ws ! j" by linarith
  qed
  show "xs = x" if "eps = 0"
    using near that sx(2) lens(1) by (intro nth_equalityI) simp_all
  have "ws = w" if "eps = 0"
    using near that lw lens(2) by (intro nth_equalityI) (simp_all add: wj)
  then show "ws = map (\<lambda>v. b0 * v\<^sup>2) (V ! 0)" if "eps = 0"
    using that by (simp add: w_def)
qed

section \<open>What the three backends return\<close>


text \<open>Sorting nodes and weights by node, as \<open>sorted(range(len(x)), key=lambda i: x[i])\<close>
  and the two list comprehensions after it do.\<close>

lemma sort_by_node:
  fixes x w :: "real list"
  assumes len: "length w = length x"
  defines "order \<equiv> sort_key (\<lambda>i. x ! i) [0..<length x]"
  shows "length (map (\<lambda>i. x ! i) order) = length x"
    and "length (map (\<lambda>i. w ! i) order) = length x"
    and "sorted (map (\<lambda>i. x ! i) order)"
    and "set (map (\<lambda>i. x ! i) order) = set x"
    and "set (map (\<lambda>i. w ! i) order) = set w"
    and "sum_list (map (\<lambda>i. w ! i) order) = sum_list w"
    and "\<And>k. k < length x \<Longrightarrow> \<exists>i<length x. map (\<lambda>i. x ! i) order ! k = x ! i
            \<and> map (\<lambda>i. w ! i) order ! k = w ! i"
    and "distinct x \<Longrightarrow> sorted_wrt (<) (map (\<lambda>i. x ! i) order)"
proof -
  have set_order: "set order = {0..<length x}" by (simp add: order_def)
  have dist_order: "distinct order" by (simp add: order_def)
  have len_order: "length order = length x" by (simp add: order_def)
  show "length (map (\<lambda>i. x ! i) order) = length x" "length (map (\<lambda>i. w ! i) order) = length x"
    by (simp_all add: len_order)
  show srt: "sorted (map (\<lambda>i. x ! i) order)"
    unfolding order_def by (rule sorted_sort_key)
  show "set (map (\<lambda>i. x ! i) order) = set x"
    using nth_image [of "length x" x] by (simp add: set_order)
  show "set (map (\<lambda>i. w ! i) order) = set w"
    using nth_image [of "length w" w] len by (simp add: set_order)
  have "sum_list (map (\<lambda>i. w ! i) order) = sum ((!) w) (set order)"
    by (rule sum_list_distinct_conv_sum_set [OF dist_order])
  also have "\<dots> = sum_list w"
    using len by (simp add: set_order sum_list_sum_nth)
  finally show "sum_list (map (\<lambda>i. w ! i) order) = sum_list w" .
  show "\<exists>i<length x. map (\<lambda>i. x ! i) order ! k = x ! i \<and> map (\<lambda>i. w ! i) order ! k = w ! i"
    if "k < length x" for k
  proof -
    have "order ! k \<in> set order" using that len_order by simp
    then have "order ! k < length x" by (simp add: set_order)
    then show ?thesis using that len_order by auto
  qed
  show "sorted_wrt (<) (map (\<lambda>i. x ! i) order)" if "distinct x"
  proof -
    have "inj_on ((!) x) (set order)"
      using that by (auto simp: set_order inj_on_def nth_eq_iff_index_eq)
    then have "distinct (map (\<lambda>i. x ! i) order)"
      using dist_order by (simp add: distinct_map)
    with srt show ?thesis by (simp add: strict_sorted_iff)
  qed
qed

text \<open>For a Jacobi matrix with non-zero off-diagonal a correct \<open>eigenvects()\<close> reports
  every eigenvalue with multiplicity 1.\<close>

lemma Jacobi_reported_simple:
  assumes off: "\<And>k. 1 \<le> k \<Longrightarrow> k < length alpha \<Longrightarrow> sq (beta ! k) \<noteq> 0"
      and spec: "eigenvects_spec (Jacobi_matrix sq alpha beta) items"
      and item: "item \<in> set items"
  shows "fst (snd item) = 1"
proof (rule ccontr)
  assume ne: "fst (snd item) \<noteq> 1"
  define n where "n = length alpha"
  define m where "m = fst (snd item)"
  define vecs where "vecs = snd (snd item)"
  have m: "1 \<le> m" "length vecs = m"
      and eig: "\<forall>v \<in> set vecs. eigenvector (Jacobi_matrix sq alpha beta) (fst item) v"
      and ind: "independent_vectors n vecs"
    using spec item
    by (auto simp: eigenvects_spec_def m_def vecs_def n_def Jacobi_matrix_length)
  have m2: "2 \<le> m" using m(1) ne by (simp add: m_def)
  define u where "u = vecs ! 0"
  define v where "v = vecs ! 1"
  have u: "eigenvector (Jacobi_matrix sq alpha beta) (fst item) u"
   and v: "eigenvector (Jacobi_matrix sq alpha beta) (fst item) v"
    using eig m m2 by (simp_all add: u_def v_def)
  define c where "c = (\<lambda>i::nat. if i = 0 then - (v ! 0) else if i = 1 then u ! 0 else 0)"
  have "(\<Sum>i<length vecs. c i * vecs ! i ! k) = 0" if k: "k < n" for k
  proof -
    have "(\<Sum>i\<in>{0, 1}. c i * vecs ! i ! k) = (\<Sum>i<m. c i * vecs ! i ! k)"
      using m2 by (intro sum.mono_neutral_left) (auto simp: c_def)
    moreover have "(\<Sum>i\<in>{0, 1::nat}. c i * vecs ! i ! k) = u ! 0 * v ! k - v ! 0 * u ! k"
      by (simp add: c_def u_def v_def)
    moreover have "u ! 0 * v ! k = v ! 0 * u ! k"
      using Jacobi_eigenvectors_proportional [of alpha sq beta "fst item" u v k] off u v k
      by (simp add: n_def)
    ultimately show ?thesis using m(2) by simp
  qed
  with ind have "\<forall>i<length vecs. c i = 0"
    unfolding independent_vectors_def by blast
  then have "c 1 = 0" using m m2 by simp
  then have "u ! 0 = 0" by (simp add: c_def)
  moreover have "u ! 0 \<noteq> 0"
    using Jacobi_eigenvector_first [of alpha sq beta "fst item" u] off u by simp
  ultimately show False by simp
qed

lemma dot_scale:
  fixes s t :: real
  shows "dot (map (\<lambda>c. c / s) u) (map (\<lambda>c. c / t) v) = dot u v / (s * t)"
  by (induction u v rule: list_induct2') (simp_all add: dot_def add_divide_distrib)

lemma sympy_backend:
  fixes L :: libs
  assumes smp: "\<forall>v. sympy_simplify L v = v" and al: "elems alpha = a0 # as"
      and rat: "isinstance_Rational L a0"
      and len: "length (elems beta) = length (elems alpha)"
      and ok: "sympy_solver_ok L (elems alpha) (elems beta)"
      and simple: "\<forall>item \<in> set (eigenvects L
                     (Jacobi_matrix (sympy_sqrt L) (elems alpha) (elems beta))). fst (snd item) = 1"
  shows "\<exists>x w. gauss_from_coefficients_sympy L alpha beta = Inr (x, w)
           \<and> Golub_Welsch (Jacobi_matrix (sympy_sqrt L) (elems alpha) (elems beta))
               (hd (elems beta)) x w
           \<and> sum_list w = hd (elems beta)
           \<and> sorted_wrt (<) x
           \<and> ((\<forall>k. 1 \<le> k \<and> k < length (elems alpha) \<longrightarrow> sympy_sqrt L (elems beta ! k) \<noteq> 0)
                \<and> 0 < hd (elems beta) \<longrightarrow> (\<forall>y \<in> set w. 0 < y))"
proof -
  define J where "J = Jacobi_matrix (sympy_sqrt L) (elems alpha) (elems beta)"
  define n where "n = length (elems alpha)"
  define items where "items = eigenvects L J"
  obtain b0 bs where be: "elems beta = b0 # bs" using len al by (cases "elems beta") auto
  have npos: "0 < n" using al by (simp add: n_def)
  have lenJ: "length J = n" by (simp add: J_def n_def Jacobi_matrix_length)
  have spec: "eigenvects_spec J items"
    using ok by (simp add: sympy_solver_ok_def J_def items_def)
  have m1: "\<And>item. item \<in> set items \<Longrightarrow> fst (snd item) = 1"
    using simple by (simp add: items_def J_def)
  have one: "\<And>item. item \<in> set items \<Longrightarrow> length (snd (snd item)) = 1"
    using spec m1 by (auto simp: eigenvects_spec_def)
  have hd_eig: "eigenvector J (fst item) (hd (snd (snd item)))"
    if it: "item \<in> set items" for item
  proof -
    obtain v where "snd (snd item) = [v]"
      using one [OF it] by (cases "snd (snd item)") auto
    then show ?thesis using spec it by (auto simp: eigenvects_spec_def)
  qed
  have hd_ne: "hd (snd (snd item)) \<noteq> []" if "item \<in> set items" for item
    using hd_eig [OF that] npos lenJ by (auto simp: eigenvector_def)
  have "sum_list (map (\<lambda>item. fst (snd item)) items) = length items"
    using m1 by (induction items) simp_all
  then have len_items: "length items = n"
    using spec lenJ by (simp add: eigenvects_spec_def)
  define lams where "lams = map fst items"
  define vs where "vs = map (\<lambda>item. hd (snd (snd item))) items"
  define ws where "ws = map (\<lambda>v. b0 * (v ! 0)\<^sup>2 / norm2 v) vs"
  have collected: "collect_items L (elems beta) items = Inr (zip lams ws)"
  proof -
    have "collect_items L (elems beta) items =
        Inr (map (\<lambda>item. (fst item,
               sympy_simplify L (hd (elems beta) * (hd (snd (snd item)) ! 0)\<^sup>2
                                   / norm2 (hd (snd (snd item)))))) items)"
      using m1 one hd_ne by (intro collect_items_weights) (auto simp: be)
    also have "map (\<lambda>item. (fst item,
               sympy_simplify L (hd (elems beta) * (hd (snd (snd item)) ! 0)\<^sup>2
                                   / norm2 (hd (snd (snd item)))))) items
        = zip lams ws"
      unfolding lams_def ws_def vs_def using smp by (induction items) (simp_all add: be)
    finally show ?thesis .
  qed
  have lens: "length lams = n" "length ws = n" "length vs = n"
    by (simp_all add: lams_def ws_def vs_def len_items)
  have eig: "eigenvector J (lams ! i) (vs ! i)" if "i < n" for i
    using hd_eig [of "items ! i"] that len_items by (simp add: lams_def vs_def)
  have dist: "distinct lams"
    using spec by (simp add: eigenvects_spec_def lams_def)
  have orth: "dot (vs ! i) (vs ! j) = 0" if "i < n" "j < n" "i \<noteq> j" for i j
  proof -
    have "lams ! i \<noteq> lams ! j"
      using dist that lens by (simp add: nth_eq_iff_index_eq)
    then show ?thesis
      using symmetric_eigenvectors_orthogonal [of J "lams ! i" "vs ! i" "lams ! j" "vs ! j"]
        eig [OF that(1)] eig [OF that(2)]
        Jacobi_matrix_square [of "sympy_sqrt L" "elems alpha" "elems beta"]
        Jacobi_matrix_symmetric [of "sympy_sqrt L" "elems alpha" "elems beta"]
      by (simp add: J_def)
  qed
  have wn: "ws ! i = b0 * (vs ! i ! 0)\<^sup>2 / norm2 (vs ! i)" if "i < n" for i
    using that lens by (simp add: ws_def)
  have all_eigs: "set lams = eigenvalues J"
    using eigenvalues_complete [of J n lams vs] eig orth lens(1) lenJ
      Jacobi_matrix_square [of "sympy_sqrt L" "elems alpha" "elems beta"]
      Jacobi_matrix_symmetric [of "sympy_sqrt L" "elems alpha" "elems beta"]
    by (simp add: J_def)
  define nv where "nv = (\<lambda>v :: real list. map (\<lambda>c. c / sqrt (norm2 v)) v)"
  have unit: "eigenvector J (lams ! i) (nv (vs ! i))" "norm2 (nv (vs ! i)) = 1"
      "ws ! i = b0 * (nv (vs ! i) ! 0)\<^sup>2" if "i < n" for i
  proof -
    have "vs ! i \<noteq> []" using eig [OF that] npos lenJ by (auto simp: eigenvector_def)
    then have *: "eigenvector J (lams ! i) (nv (vs ! i))" "norm2 (nv (vs ! i)) = 1"
        "(nv (vs ! i) ! 0)\<^sup>2 = (vs ! i ! 0)\<^sup>2 / norm2 (vs ! i)"
      using eigenvector_normalize [OF eig [OF that]] by (simp_all add: nv_def)
    show "eigenvector J (lams ! i) (nv (vs ! i))" "norm2 (nv (vs ! i)) = 1" by (rule *)+
    show "ws ! i = b0 * (nv (vs ! i) ! 0)\<^sup>2" using wn [OF that] *(3) by simp
  qed
  have north: "dot (nv (vs ! i)) (nv (vs ! j)) = 0" if "i < n" "j < n" "i \<noteq> j" for i j
    using orth [OF that] by (simp add: nv_def dot_scale)
  have total: "sum_list ws = b0"
  proof -
    have "(\<Sum>i<n. (vs ! i ! 0)\<^sup>2 / norm2 (vs ! i)) = 1"
    proof (rule first_components_sum [OF npos])
      show "length (vs ! i) = n" if "i < n" for i
        using eig [OF that] lenJ by (simp add: eigenvector_def)
      show "dot (vs ! i) (vs ! i) \<noteq> 0" if "i < n" for i
        using eigenvector_nonzero [OF eig [OF that]] .
    qed (rule orth)
    moreover have "sum_list ws = (\<Sum>i<n. ws ! i)"
      using lens by (simp add: sum_list_sum_nth atLeast0LessThan)
    moreover have "(\<Sum>i<n. ws ! i) = b0 * (\<Sum>i<n. (vs ! i ! 0)\<^sup>2 / norm2 (vs ! i))"
      unfolding sum_distrib_left by (rule sum.cong) (simp_all add: wn)
    ultimately show ?thesis by simp
  qed
  define order where "order = sort_key (\<lambda>i. lams ! i) [0..<length lams]"
  define x where "x = map (\<lambda>i. lams ! i) order"
  define w where "w = map (\<lambda>i. ws ! i) order"
  define us where "us = map (\<lambda>i. nv (vs ! i)) order"
  have lw: "length ws = length lams" using lens by simp
  note srt = sort_by_node [OF lw, folded order_def, folded x_def w_def]
  have ord: "set order = {0..<n}" "distinct order" "length order = n"
    using lens by (simp_all add: order_def)
  have oj: "order ! j < n" if "j < n" for j
  proof -
    have "order ! j \<in> set order" using that ord(3) by simp
    then show ?thesis using ord(1) by simp
  qed
  have at: "x ! j = lams ! (order ! j)" "w ! j = ws ! (order ! j)"
      "us ! j = nv (vs ! (order ! j))" if "j < n" for j
    using that ord(3) by (simp_all add: x_def w_def us_def)
  have tri: "sympy_tridiag (elems alpha) (map (sympy_sqrt L) (elems beta)) = Inr J"
    unfolding J_def by (rule sympy_tridiag_Jacobi [OF len])
  have unzip: "map fst (zip lams ws) = lams" "map snd (zip lams ws) = ws"
    using lens by simp_all
  have result: "gauss_from_coefficients_sympy L alpha beta = Inr (x, w)"
    unfolding gauss_from_coefficients_sympy_def tri
    using rat collected
    by (simp add: al items_def [symmetric] unzip Let_def x_def w_def order_def)
  have GW: "Golub_Welsch J b0 x w"
    unfolding Golub_Welsch_def
  proof (intro conjI)
    show "length x = length J" "length w = length J"
      using srt(1,2) lens lenJ by simp_all
    show "set x = eigenvalues J" using srt(4) all_eigs by simp
    have "length us = length J" using ord(3) lenJ by (simp add: us_def)
    moreover have "eigenvector J (x ! j) (us ! j) \<and> norm2 (us ! j) = 1
        \<and> w ! j = b0 * (us ! j ! 0)\<^sup>2" if "j < length J" for j
    proof -
      have j: "j < n" using that lenJ by simp
      show ?thesis using unit [OF oj [OF j]] at [OF j] by simp
    qed
    moreover have "dot (us ! i) (us ! j) = 0" if "i < length J" "j < length J" "i \<noteq> j" for i j
    proof -
      have ij: "i < n" "j < n" using that lenJ by simp_all
      have "order ! i \<noteq> order ! j"
        using ord(2,3) ij that(3) by (simp add: nth_eq_iff_index_eq)
      then show ?thesis
        using north [OF oj [OF ij(1)] oj [OF ij(2)]] at(3) [OF ij(1)] at(3) [OF ij(2)] by simp
    qed
    ultimately show "\<exists>us. length us = length J
        \<and> (\<forall>j<length J. eigenvector J (x ! j) (us ! j) \<and> norm2 (us ! j) = 1
              \<and> w ! j = b0 * (us ! j ! 0)\<^sup>2)
        \<and> (\<forall>i<length J. \<forall>j<length J. i \<noteq> j \<longrightarrow> dot (us ! i) (us ! j) = 0)"
      by (intro exI [of _ us]) simp
  qed
  have pos: "\<forall>y \<in> set w. 0 < y"
    if off: "\<forall>k. 1 \<le> k \<and> k < length (elems alpha) \<longrightarrow> sympy_sqrt L (elems beta ! k) \<noteq> 0"
      and b0: "0 < b0"
  proof
    fix y assume "y \<in> set w"
    then have "y \<in> set ws" using srt(5) by simp
    then obtain i where i: "i < n" "y = ws ! i"
      using lens by (auto simp: in_set_conv_nth)
    have "vs ! i ! 0 \<noteq> 0"
      using Jacobi_eigenvector_first [of "elems alpha" "sympy_sqrt L" "elems beta"
          "lams ! i" "vs ! i"] off eig [OF i(1)]
      by (simp add: J_def)
    moreover have "0 < norm2 (vs ! i)"
      using eig [OF i(1)] norm2_pos [of "vs ! i"] by (simp add: eigenvector_def)
    ultimately show "0 < y" using b0 i wn by simp
  qed
  show ?thesis
    using result GW srt(6) total srt(8) [OF dist] pos
    by (auto simp: J_def be)
qed

text \<open>The two numeric backends with a solver that is accurate to \<open>eps\<close>: the nodes are
  within \<open>eps\<close> of the eigenvalues and each weight within \<open>|beta[0]| eps (3 + eps)\<close> of the
  weight of the exact rule.\<close>

lemma mpmath_near:
  assumes ne: "elems alpha \<noteq> []" and len: "length (elems beta) = length (elems alpha)"
      and within: "mpmath_solver_within L p (elems alpha) (elems beta) eps x V"
  shows "\<exists>xs ws. gauss_from_coefficients_mpmath L alpha beta p mp =
                    (Inr (xs, ws), mp\<lparr>dps := p\<rparr>)
           \<and> length xs = length (elems alpha) \<and> length ws = length (elems alpha)
           \<and> (\<forall>j<length (elems alpha). \<bar>xs ! j - x ! j\<bar> \<le> eps
                \<and> \<bar>ws ! j - hd (elems beta) * (V ! 0 ! j)\<^sup>2\<bar>
                     \<le> \<bar>hd (elems beta)\<bar> * eps * (3 + eps))"
proof -
  have sys: "orthonormal_eigensystem (Jacobi_matrix (mp_sqrt L p) (elems alpha) (elems beta)) x V"
    using within by (simp add: mpmath_solver_within_def)
  from within obtain d' z'
    where te: "tridiag_eigen L p (elems alpha)
                 (offdiag_entries L p (elems beta) (length (elems alpha)))
                 ((replicate (length (elems alpha)) 0)[0 := 1]) = Inr (d', z')"
      and lens: "length d' = length (elems alpha)" "length z' = length (elems alpha)"
      and near: "\<forall>j<length (elems alpha). \<bar>sympy_Float L (d' ! j) - x ! j\<bar> \<le> eps
                   \<and> \<bar>z' ! j - V ! 0 ! j\<bar> \<le> eps
                   \<and> \<bar>mp_power L p (z' ! j) 2 - (z' ! j)\<^sup>2\<bar> \<le> eps"
    by (auto simp: mpmath_solver_within_def split: sum.splits)
  have le: "length (elems alpha) \<le> length (elems beta)" using len by simp
  have run: "gauss_from_coefficients_mpmath L alpha beta p mp =
      (Inr (map (sympy_Float L) d', map (\<lambda>ww. hd (elems beta) * mp_power L p ww 2) z'),
       mp\<lparr>dps := p\<rparr>)"
    using mpmath_structure [OF ne le, of L p mp] te by simp
  have "\<bar>map (\<lambda>ww. hd (elems beta) * mp_power L p ww 2) z' ! j
          - hd (elems beta) * (V ! 0 ! j)\<^sup>2\<bar> \<le> \<bar>hd (elems beta)\<bar> * eps * (3 + eps)"
    if j: "j < length (elems alpha)" for j
    using weight_error [of "z' ! j" "V ! 0 ! j" eps "mp_power L p (z' ! j) 2" "hd (elems beta)"]
      near j lens eigensystem_rule(6) [OF sys ne j] by simp
  then show ?thesis
    using run lens near by simp
qed

lemma numpy_near:
  assumes ne: "elems alpha \<noteq> []" and len: "length (elems beta) = length (elems alpha)"
      and arr: "isinstance_ndarray alpha" "isinstance_ndarray beta"
      and within: "numpy_solver_within L (elems alpha) (elems beta) eps x V"
  shows "\<exists>xs ws. gauss_from_coefficients_numpy L alpha beta = Inr (xs, ws)
           \<and> length xs = length (elems alpha) \<and> length ws = length (elems alpha)
           \<and> (\<forall>j<length (elems alpha). \<bar>xs ! j - x ! j\<bar> \<le> eps
                \<and> \<bar>ws ! j - hd (elems beta) * (V ! 0 ! j)\<^sup>2\<bar>
                     \<le> \<bar>hd (elems beta)\<bar> * eps * (3 + eps))"
proof -
  have sys: "orthonormal_eigensystem (Jacobi_matrix (numpy_sqrt L) (elems alpha) (elems beta)) x V"
    using within by (simp add: numpy_solver_within_def)
  from within obtain x' V0 Vs
    where eb: "eig_banded L [map (numpy_sqrt L) (elems beta), elems alpha] = Inr (x', V0 # Vs)"
      and lens: "length x' = length (elems alpha)" "length V0 = length (elems alpha)"
      and near: "\<forall>j<length (elems alpha). \<bar>x' ! j - x ! j\<bar> \<le> eps
                   \<and> \<bar>V0 ! j - V ! 0 ! j\<bar> \<le> eps
                   \<and> \<bar>scipy_real L (scipy_power L (V0 ! j) 2) - (V0 ! j)\<^sup>2\<bar> \<le> eps"
    by (auto simp: numpy_solver_within_def neq_Nil_conv split: sum.splits)
  have run: "gauss_from_coefficients_numpy L alpha beta =
      Inr (x', map (\<lambda>v. hd (elems beta) * scipy_real L (scipy_power L v 2)) V0)"
    using numpy_structure [OF arr len ne, of L] eb by simp
  have "\<bar>map (\<lambda>v. hd (elems beta) * scipy_real L (scipy_power L v 2)) V0 ! j
          - hd (elems beta) * (V ! 0 ! j)\<^sup>2\<bar> \<le> \<bar>hd (elems beta)\<bar> * eps * (3 + eps)"
    if j: "j < length (elems alpha)" for j
    using weight_error [of "V0 ! j" "V ! 0 ! j" eps "scipy_real L (scipy_power L (V0 ! j) 2)"
        "hd (elems beta)"]
      near j lens eigensystem_rule(6) [OF sys ne j] by simp
  then show ?thesis
    using run lens near by simp
qed

section \<open>The concrete library on concrete coefficients\<close>

lemma Jacobi_9_16: "Jacobi_matrix sqrt [9, 16] [b0, 144] = [[9, 12], [12, 16]]"
  by (simp add: Jacobi_matrix_def sqrt_144 upt_rec [of 0] upt_rec [of 1])

lemma eigenvector_25: "eigenvector [[9, 12], [12, 16]] 25 [3, 4]"
  by (simp add: eigenvector_def mat_vec_def dot_def)

lemma eigenvector_0: "eigenvector [[9, 12], [12, 16]] 0 [-4, 3]"
  by (simp add: eigenvector_def mat_vec_def dot_def)

lemma independent_single:
  assumes "0 < n" "v ! 0 \<noteq> 0"
  shows "independent_vectors n [v]"
  unfolding independent_vectors_def
proof (intro allI impI)
  fix c :: "nat \<Rightarrow> real" and i
  assume "\<forall>k<n. (\<Sum>i<length [v]. c i * [v] ! i ! k) = 0" "i < length [v]"
  then have "c 0 * v ! 0 = 0" "i = 0" using assms(1) by auto
  then show "c i = 0" using assms(2) by simp
qed

lemma sympy_solver_ok_9_16: "sympy_solver_ok exact_libs [9, 16] [b0, 144]"
  using eigenvector_25 eigenvector_0 independent_single [of "Suc (Suc 0)" "[3, 4]"]
    independent_single [of "Suc (Suc 0)" "[-4, 3]"]
  by (simp add: sympy_solver_ok_def eigenvects_spec_def exact_libs_def Jacobi_9_16
      table_eigenvects_def)

lemma eigensystem_9_16:
  "orthonormal_eigensystem [[9, 12], [12, 16]] [0, 25] [[-4/5, 3/5], [3/5, 4/5]]"
proof -
  have two: "\<And>P. (\<forall>j<Suc (Suc 0). P j) = (P 0 \<and> P (Suc 0))"
    by (auto simp: less_Suc_eq)
  show ?thesis
    by (simp add: orthonormal_eigensystem_def two col_def eigenvector_def mat_vec_def dot_def)
qed

lemma run_sympy_9_16:
  "gauss_from_coefficients_sympy exact_libs (NdArray [9, 16]) (NdArray [b0, 144]) =
     Inr ([0, 25], [b0 * 9 / 25 * (16 / 9), b0 * 9 / 25])"
proof -
  have tri: "sympy_tridiag [9, 16] [sqrt b0, 12] = Inr [[9, 12], [12, 16]]"
    using sympy_tridiag_Jacobi [of "[b0, 144]" "[9, 16]" sqrt] by (simp add: Jacobi_9_16 sqrt_144)
  have order: "sort_key (\<lambda>i. [25, 0 :: real] ! i) [0..<2] = [1, 0]"
    by (simp add: numeral_2_eq_2)
  show ?thesis
    by (simp add: gauss_from_coefficients_sympy_def exact_libs_def tri table_eigenvects_def
        sqrt_144 norm2_def Let_def order)
qed

lemma run_mpmath_9_16:
  "gauss_from_coefficients_mpmath exact_libs (NdArray [9, 16]) (NdArray [b0, 144]) p mp =
     (Inr ([0, 25], [b0 * (16 / 25), b0 * (9 / 25)]), mp\<lparr>dps := p\<rparr>)"
  by (simp add: gauss_from_coefficients_mpmath_def offdiag_vector_def exact_libs_def
      table_tridiag_eigen_def sqrt_144 Let_def power2_eq_square numeral_2_eq_2)

lemma run_numpy_9_16:
  "gauss_from_coefficients_numpy exact_libs (NdArray [9, 16]) (NdArray [b0, 144]) =
     Inr ([0, 25], [b0 * (16 / 25), b0 * (9 / 25)])"
  by (simp add: gauss_from_coefficients_numpy_def exact_libs_def table_eig_banded_def sqrt_144
      power2_eq_square)

lemma rational_9: "isinstance_Rational exact_libs 9"
  by (simp add: exact_libs_def)


lemma well_formed_9_16:
  "\<forall>k. 1 \<le> k \<and> k < length (elems (NdArray [9, 16])) \<longrightarrow> 0 < elems (NdArray [b0, 144]) ! k"
  by (auto simp: less_Suc_eq)

lemma two: "(\<forall>j<Suc (Suc 0). P j) = (P 0 \<and> P (Suc 0))"
  by (auto simp: less_Suc_eq)

lemma offdiag_entries_9_16: "offdiag_entries exact_libs p [b0, 144] (Suc (Suc 0)) = [12, 0]"
  by (simp add: offdiag_entries_def exact_libs_def sqrt_144)

lemma mpmath_within_9_16:
  "mpmath_solver_within exact_libs p [9, 16] [b0, 144] 0 [0, 25] [[-4/5, 3/5], [3/5, 4/5]]"
proof -
  have J: "Jacobi_matrix (mp_sqrt exact_libs p) [9, 16] [b0, 144] = [[9, 12], [12, 16]]"
    using Jacobi_9_16 [of b0] by (simp add: exact_libs_def)
  have t: "tridiag_eigen exact_libs p [9, 16] [12, 0] [1, 0] = Inr ([0, 25], [-4/5, 3/5])"
    by (simp add: exact_libs_def table_tridiag_eigen_def)
  have lib: "sympy_Float exact_libs = (\<lambda>x. x)" "\<And>v. mp_power exact_libs p v 2 = v\<^sup>2"
    by (simp_all add: exact_libs_def)
  show ?thesis
    unfolding mpmath_solver_within_def J
    using eigensystem_9_16 by (simp add: offdiag_entries_9_16 t two lib)
qed

lemma numpy_within_9_16:
  "numpy_solver_within exact_libs [9, 16] [b0, 144] 0 [0, 25] [[-4/5, 3/5], [3/5, 4/5]]"
proof -
  have J: "Jacobi_matrix (numpy_sqrt exact_libs) [9, 16] [b0, 144] = [[9, 12], [12, 16]]"
    using Jacobi_9_16 [of b0] by (simp add: exact_libs_def)
  have e: "eig_banded exact_libs [[sqrt b0, 12], [9, 16]] =
      Inr ([0, 25], [[-4/5, 3/5], [3/5, 4/5]])"
    by (simp add: exact_libs_def table_eig_banded_def)
  have lib: "numpy_sqrt exact_libs = sqrt"
      "\<And>v. scipy_real exact_libs (scipy_power exact_libs v 2) = v\<^sup>2"
    by (simp_all add: exact_libs_def)
  show ?thesis
    unfolding numpy_solver_within_def J
    using eigensystem_9_16 by (simp add: lib sqrt_144 e two)
qed

lemma rounding_within_9_16:
  "mpmath_solver_within rounding_libs 32 [9, 16] [2, 144] (1/1000) [0, 25]
     [[-4/5, 3/5], [3/5, 4/5]]"
proof -
  have J: "Jacobi_matrix (mp_sqrt rounding_libs 32) [9, 16] [2, 144] = [[9, 12], [12, 16]]"
    using Jacobi_9_16 [of 2] by (simp add: rounding_libs_def exact_libs_def)
  have b: "offdiag_entries rounding_libs 32 [2, 144] (Suc (Suc 0)) = [12, 0]"
    by (simp add: offdiag_entries_def rounding_libs_def exact_libs_def sqrt_144)
  have t: "tridiag_eigen rounding_libs 32 [9, 16] [12, 0] [1, 0] =
      Inr ([1/1000, 25], [- (799/1000), 3/5])"
    by (simp add: rounding_libs_def)
  have lib: "sympy_Float rounding_libs = (\<lambda>x. x)" "\<And>v. mp_power rounding_libs 32 v 2 = v\<^sup>2"
    by (simp_all add: rounding_libs_def exact_libs_def)
  show ?thesis
    unfolding mpmath_solver_within_def J
    using eigensystem_9_16 by (simp add: b t two lib)
qed

lemma run_rounding_9_16:
  "gauss_from_coefficients_mpmath rounding_libs (NdArray [9, 16]) (NdArray [2, 144]) 32 mp =
     (Inr ([1/1000, 25], [638401/500000, 18/25]), mp\<lparr>dps := 32\<rparr>)"
  by (simp add: gauss_from_coefficients_mpmath_def offdiag_vector_def rounding_libs_def
      exact_libs_def sqrt_144 Let_def power2_eq_square numeral_2_eq_2)


text \<open>The weights of a Golub-Welsch rule add up to \<open>beta[0]\<close>, so the rule is not met by
  unit eigenvectors picked node by node: for the identity matrix and \<open>beta[0] = 1\<close> the
  weights \<open>[1, 0]\<close> make a rule and \<open>[1, 1]\<close> do not.\<close>

lemma Golub_Welsch_sum:
  assumes "Golub_Welsch J b0 x w" "J \<noteq> []"
  shows "sum_list w = b0"
proof -
  define n where "n = length J"
  from assms(1) obtain us
    where lw: "length w = n"
      and us: "\<And>j. j < n \<Longrightarrow> eigenvector J (x ! j) (us ! j) \<and> norm2 (us ! j) = 1
                  \<and> w ! j = b0 * (us ! j ! 0)\<^sup>2"
      and orth: "\<And>i j. i < n \<Longrightarrow> j < n \<Longrightarrow> i \<noteq> j \<Longrightarrow> dot (us ! i) (us ! j) = 0"
    unfolding Golub_Welsch_def n_def by blast
  have npos: "0 < n" using assms(2) by (simp add: n_def)
  have "(\<Sum>i<n. (us ! i ! 0)\<^sup>2 / norm2 (us ! i)) = 1"
  proof (rule first_components_sum [OF npos])
    show "length (us ! i) = n" if "i < n" for i
      using us [OF that] by (simp add: eigenvector_def n_def)
    show "dot (us ! i) (us ! i) \<noteq> 0" if "i < n" for i
      using us [OF that] by (simp add: norm2_dot)
  qed (rule orth)
  then have one: "(\<Sum>i<n. (us ! i ! 0)\<^sup>2) = 1" using us by simp
  have "sum_list w = (\<Sum>i<n. w ! i)"
    using lw by (simp add: sum_list_sum_nth atLeast0LessThan)
  also have "\<dots> = (\<Sum>i<n. b0 * (us ! i ! 0)\<^sup>2)"
    by (rule sum.cong) (simp_all add: us)
  also have "\<dots> = b0" using one by (simp add: sum_distrib_left [symmetric])
  finally show ?thesis .
qed

lemma eigensystem_identity:
  "orthonormal_eigensystem [[1, 0], [0, 1]] [1, 1] [[1, 0], [0, 1]]"
  by (simp add: orthonormal_eigensystem_def two col_def eigenvector_def mat_vec_def dot_def)

lemma Golub_Welsch_identity:
  "Golub_Welsch [[1, 0], [0, 1]] 1 [1, 1] [1, 0]"
  "\<not> Golub_Welsch [[1, 0], [0, 1]] 1 [1, 1] [1, 1]"
proof -
  have J: "Jacobi_matrix sqrt [1, 1] [1, 0] = [[1, 0], [0, 1]]"
    by (simp add: Jacobi_matrix_def upt_rec [of 0] upt_rec [of 1])
  show "Golub_Welsch [[1, 0], [0, 1]] 1 [1, 1] [1, 0]"
    using eigensystem_rule(1) [of sqrt "[1, 1]" "[1, 0]" "[1, 1]" "[[1, 0], [0, 1]]" 1]
      eigensystem_identity
    by (simp add: J)
  show "\<not> Golub_Welsch [[1, 0], [0, 1]] 1 [1, 1] [1, 1]"
    using Golub_Welsch_sum [of "[[1, 0], [0, 1]]" 1 "[1, 1]" "[1, 1]"] by auto
qed

text \<open>The library of finite precision on coefficients whose Jacobi matrix has two
  eigenvalues closer than the precision.\<close>

lemma sqrt_small: "sqrt (1 / 10 ^ 40) = 1 / 10 ^ 20" "sqrt (1 / 10 ^ 80) = 1 / 10 ^ 40"
  by (rule real_sqrt_unique; simp add: power2_eq_square)+

lemma run_finite_numpy:
  "gauss_from_coefficients_numpy finite_precision_libs (NdArray [1, 1])
     (NdArray [1, 1 / 10 ^ 40]) = Inr ([1, 1], [1, 0])"
  using sqrt_small(1)
  by (simp add: gauss_from_coefficients_numpy_def finite_precision_libs_def exact_libs_def)

lemma run_finite_mpmath:
  "gauss_from_coefficients_mpmath finite_precision_libs (NdArray [1, 1])
     (NdArray [1, 1 / 10 ^ 80]) 32 mp = (Inr ([1, 1], [1, 0]), mp\<lparr>dps := 32\<rparr>)"
  using sqrt_small(2)
  by (simp add: gauss_from_coefficients_mpmath_def offdiag_vector_def finite_precision_libs_def
      exact_libs_def Let_def numeral_2_eq_2)

lemma Jacobi_close: "Jacobi_matrix sqrt [1, 1] [1, 1 / 10 ^ 40] = [[1, 1 / 10 ^ 20], [1 / 10 ^ 20, 1]]"
  using sqrt_small(1) by (simp add: Jacobi_matrix_def upt_rec [of 0] upt_rec [of 1])

lemma eigenvectors_close:
  "eigenvector [[1, 1 / 10 ^ 20], [1 / 10 ^ 20, 1]] (1 - 1 / 10 ^ 20) [1, -1]"
  "eigenvector [[1, 1 / 10 ^ 20], [1 / 10 ^ 20, 1]] (1 + 1 / 10 ^ 20) [1, 1]"
  by (simp_all add: eigenvector_def mat_vec_def dot_def)

section \<open>The quadrature rule returned by \<open>custom\<close>\<close>




text \<open>
  C2, as the code has it. Let the coefficients be well formed: \<open>len(alpha) = len(beta) =
  n > 0\<close> and \<open>beta[k] > 0\<close> for \<open>1 \<le> k < n\<close>, the square root of a positive number being
  non-zero. The exact backend sorts by node itself: with \<open>alpha[0]\<close> a \<open>sympy.Rational\<close> and
  a correct \<open>eigenvects()\<close> it never trips its multiplicity assertion and returns
  strictly ascending, hence pairwise distinct, nodes, with as many weights, weight \<open>j\<close>
  computed from the eigenvector of node \<open>j\<close>. The mpmath and the numpy backend return the
  nodes in the order of their solver, weight \<open>j\<close> computed from entry \<open>j\<close> of the solver's
  vector. The eigenvalues \<open>x\<close> of an exact ascending eigen-decomposition are strictly
  ascending; when the solver is within \<open>eps\<close> of it, the nodes returned are strictly
  ascending and distinct if neighbouring eigenvalues are more than \<open>2 eps\<close> apart.
\<close>

theorem nodes_strictly_ascending:
  assumes ne: "elems alpha \<noteq> []" and len: "length (elems beta) = length (elems alpha)"
      and wf: "\<forall>k. 1 \<le> k \<and> k < length (elems alpha) \<longrightarrow> 0 < elems beta ! k"
  shows "(isinstance_Rational L (hd (elems alpha))
          \<and> (\<forall>v. sympy_simplify L v = v)
          \<and> (\<forall>v. 0 < v \<longrightarrow> sympy_sqrt L v \<noteq> 0)
          \<and> sympy_solver_ok L (elems alpha) (elems beta)
          \<longrightarrow> (\<exists>x w. custom L alpha beta ''sympy'' p mp = (Inr (x, w), mp)
                \<and> sorted_wrt (<) x \<and> distinct x \<and> length w = length x
                \<and> Golub_Welsch (Jacobi_matrix (sympy_sqrt L) (elems alpha) (elems beta))
                    (hd (elems beta)) x w))
       \<and> ((\<forall>v. 0 < v \<longrightarrow> mp_sqrt L p v \<noteq> 0)
          \<and> mpmath_solver_within L p (elems alpha) (elems beta) eps x V
          \<longrightarrow> (sorted_wrt (<) x \<and> distinct x
               \<and> (\<exists>xs ws. custom L alpha beta ''mpmath'' p mp = (Inr (xs, ws), mp\<lparr>dps := p\<rparr>)
                    \<and> length xs = length (elems alpha) \<and> length ws = length (elems alpha)
                    \<and> (\<forall>j<length (elems alpha). \<bar>xs ! j - x ! j\<bar> \<le> eps
                          \<and> \<bar>ws ! j - hd (elems beta) * (V ! 0 ! j)\<^sup>2\<bar>
                               \<le> \<bar>hd (elems beta)\<bar> * eps * (3 + eps))
                    \<and> ((\<forall>j. j + 1 < length (elems alpha) \<longrightarrow> 2 * eps < x ! (j + 1) - x ! j)
                          \<longrightarrow> sorted_wrt (<) xs \<and> distinct xs))))
       \<and> (isinstance_ndarray alpha \<and> isinstance_ndarray beta
          \<and> (\<forall>v. 0 < v \<longrightarrow> numpy_sqrt L v \<noteq> 0)
          \<and> numpy_solver_within L (elems alpha) (elems beta) eps x V
          \<longrightarrow> (sorted_wrt (<) x \<and> distinct x
               \<and> (\<exists>xs ws. custom L alpha beta ''numpy'' p mp = (Inr (xs, ws), mp)
                    \<and> length xs = length (elems alpha) \<and> length ws = length (elems alpha)
                    \<and> (\<forall>j<length (elems alpha). \<bar>xs ! j - x ! j\<bar> \<le> eps
                          \<and> \<bar>ws ! j - hd (elems beta) * (V ! 0 ! j)\<^sup>2\<bar>
                               \<le> \<bar>hd (elems beta)\<bar> * eps * (3 + eps))
                    \<and> ((\<forall>j. j + 1 < length (elems alpha) \<longrightarrow> 2 * eps < x ! (j + 1) - x ! j)
                          \<longrightarrow> sorted_wrt (<) xs \<and> distinct xs))))
       \<and> (\<forall>d' z'. tridiag_eigen L p (elems alpha)
                     (offdiag_entries L p (elems beta) (length (elems alpha)))
                     ((replicate (length (elems alpha)) 0)[0 := 1]) = Inr (d', z')
            \<longrightarrow> custom L alpha beta ''mpmath'' p mp =
                  (Inr (map (sympy_Float L) d',
                        map (\<lambda>ww. hd (elems beta) * mp_power L p ww 2) z'),
                   mp\<lparr>dps := p\<rparr>))
       \<and> (isinstance_ndarray alpha \<and> isinstance_ndarray beta
          \<longrightarrow> (\<forall>x' V0 Vs. eig_banded L [map (numpy_sqrt L) (elems beta), elems alpha] =
                               Inr (x', V0 # Vs)
                 \<longrightarrow> custom L alpha beta ''numpy'' p mp =
                       (Inr (x', map (\<lambda>v. hd (elems beta)
                                          * scipy_real L (scipy_power L v 2)) V0), mp)))"
    (is "(?a1 \<longrightarrow> ?b1) \<and> (?a2 \<longrightarrow> ?b2) \<and> (?a3 \<longrightarrow> ?b3) \<and> ?c4 \<and> (?a5 \<longrightarrow> ?b5)")
proof -
  obtain a0 as where al: "elems alpha = a0 # as"
    using ne by (cases "elems alpha") auto
  have le: "length (elems alpha) \<le> length (elems beta)" using len by simp
  have 1: "?a1 \<longrightarrow> ?b1"
  proof (rule impI)
    assume a: ?a1
    then have rat: "isinstance_Rational L a0" by (simp add: al)
    have off: "\<And>k. 1 \<le> k \<Longrightarrow> k < length (elems alpha)
        \<Longrightarrow> sympy_sqrt L (elems beta ! k) \<noteq> 0"
      using a wf by simp
    have simple: "\<forall>item \<in> set (eigenvects L
        (Jacobi_matrix (sympy_sqrt L) (elems alpha) (elems beta))). fst (snd item) = 1"
      using Jacobi_reported_simple [of "elems alpha" "sympy_sqrt L" "elems beta"] off a
      by (auto simp: sympy_solver_ok_def)
    from sympy_backend [OF _ al rat len _ simple] a obtain xx ww
      where run: "gauss_from_coefficients_sympy L alpha beta = Inr (xx, ww)"
        and GW: "Golub_Welsch (Jacobi_matrix (sympy_sqrt L) (elems alpha) (elems beta))
                   (hd (elems beta)) xx ww"
        and srt: "sorted_wrt (<) xx"
      by blast
    have "length ww = length xx" using GW by (simp add: Golub_Welsch_def)
    moreover have "distinct xx" using srt by (simp add: strict_sorted_iff)
    moreover have "custom L alpha beta ''sympy'' p mp = (Inr (xx, ww), mp)"
      using run by (simp add: custom_def)
    ultimately show ?b1 using GW srt by blast
  qed
  have 2: "?a2 \<longrightarrow> ?b2"
  proof (rule impI)
    assume a: ?a2
    then have w: "mpmath_solver_within L p (elems alpha) (elems beta) eps x V" by simp
    have off: "\<And>k. 1 \<le> k \<Longrightarrow> k < length (elems alpha)
        \<Longrightarrow> mp_sqrt L p (elems beta ! k) \<noteq> 0"
      using a wf by simp
    have sys: "orthonormal_eigensystem
        (Jacobi_matrix (mp_sqrt L p) (elems alpha) (elems beta)) x V"
      using w by (simp add: mpmath_solver_within_def)
    from mpmath_near [OF ne len w, of mp] obtain xs ws
      where run: "gauss_from_coefficients_mpmath L alpha beta p mp =
                    (Inr (xs, ws), mp\<lparr>dps := p\<rparr>)"
        and lens: "length xs = length (elems alpha)" "length ws = length (elems alpha)"
        and near: "\<forall>j<length (elems alpha). \<bar>xs ! j - x ! j\<bar> \<le> eps
                     \<and> \<bar>ws ! j - hd (elems beta) * (V ! 0 ! j)\<^sup>2\<bar>
                          \<le> \<bar>hd (elems beta)\<bar> * eps * (3 + eps)"
      by blast
    have c: "custom L alpha beta ''mpmath'' p mp = (Inr (xs, ws), mp\<lparr>dps := p\<rparr>)"
      using run by (simp add: custom_def)
    have sx: "sorted_wrt (<) x" by (rule eigensystem_rule(3) [OF sys ne off])
    then have dx: "distinct x" by (simp add: strict_sorted_iff)
    have gap: "(\<forall>j. j + 1 < length (elems alpha) \<longrightarrow> 2 * eps < x ! (j + 1) - x ! j)
        \<longrightarrow> sorted_wrt (<) xs \<and> distinct xs"
      using near_rule(2) [OF sys ne lens near] by (simp add: strict_sorted_iff)
    show ?b2 using c sx dx lens near gap by blast
  qed
  have 3: "?a3 \<longrightarrow> ?b3"
  proof (rule impI)
    assume a: ?a3
    then have w: "numpy_solver_within L (elems alpha) (elems beta) eps x V"
      and arr: "isinstance_ndarray alpha" "isinstance_ndarray beta" by simp_all
    have off: "\<And>k. 1 \<le> k \<Longrightarrow> k < length (elems alpha)
        \<Longrightarrow> numpy_sqrt L (elems beta ! k) \<noteq> 0"
      using a wf by simp
    have sys: "orthonormal_eigensystem
        (Jacobi_matrix (numpy_sqrt L) (elems alpha) (elems beta)) x V"
      using w by (simp add: numpy_solver_within_def)
    from numpy_near [OF ne len arr w] obtain xs ws
      where run: "gauss_from_coefficients_numpy L alpha beta = Inr (xs, ws)"
        and lens: "length xs = length (elems alpha)" "length ws = length (elems alpha)"
        and near: "\<forall>j<length (elems alpha). \<bar>xs ! j - x ! j\<bar> \<le> eps
                     \<and> \<bar>ws ! j - hd (elems beta) * (V ! 0 ! j)\<^sup>2\<bar>
                          \<le> \<bar>hd (elems beta)\<bar> * eps * (3 + eps)"
      by blast
    have c: "custom L alpha beta ''numpy'' p mp = (Inr (xs, ws), mp)"
      using run by (simp add: custom_def)
    have sx: "sorted_wrt (<) x" by (rule eigensystem_rule(3) [OF sys ne off])
    then have dx: "distinct x" by (simp add: strict_sorted_iff)
    have gap: "(\<forall>j. j + 1 < length (elems alpha) \<longrightarrow> 2 * eps < x ! (j + 1) - x ! j)
        \<longrightarrow> sorted_wrt (<) xs \<and> distinct xs"
      using near_rule(2) [OF sys ne lens near] by (simp add: strict_sorted_iff)
    show ?b3 using c sx dx lens near gap by blast
  qed
  have 4: ?c4
    using mpmath_structure [OF ne le, of L p mp] by (simp add: custom_def)
  have 5: "?a5 \<longrightarrow> ?b5"
  proof (rule impI)
    assume a: ?a5
    show ?b5
      using numpy_structure [OF _ _ len ne, of L] a by (simp add: custom_def)
  qed
  show ?thesis by (intro conjI 1 2 3 4 5)
qed

theorem nodes_strictly_ascending_witness:
  "isinstance_Rational exact_libs 9
   \<and> sympy_solver_ok exact_libs [9, 16] [2, 144]
   \<and> (0 :: real) < [2, 144] ! 1
   \<and> eigenvects exact_libs [[9, 12], [12, 16]] = [(25, 1, [[3, 4]]), (0, 1, [[-4, 3]])]
   \<and> custom exact_libs (NdArray [9, 16]) (NdArray [2, 144]) ''sympy'' 32 \<lparr>dps = 15\<rparr> =
       (Inr ([0, 25], [32/25, 18/25]), \<lparr>dps = 15\<rparr>)
   \<and> sorted_wrt (<) [0, 25 :: real] \<and> distinct [0, 25 :: real]
   \<and> Golub_Welsch [[9, 12], [12, 16]] 2 [0, 25] [32/25, 18/25]
   \<and> isinstance_ndarray (NdArray [9, 16]) \<and> isinstance_ndarray (NdArray [2, 144])
   \<and> numpy_solver_within exact_libs [9, 16] [2, 144] 0 [0, 25] [[-4/5, 3/5], [3/5, 4/5]]
   \<and> custom exact_libs (NdArray [9, 16]) (NdArray [2, 144]) ''numpy'' 32 \<lparr>dps = 15\<rparr> =
       (Inr ([0, 25], [32/25, 18/25]), \<lparr>dps = 15\<rparr>)
   \<and> mpmath_solver_within rounding_libs 32 [9, 16] [2, 144] (1/1000) [0, 25]
       [[-4/5, 3/5], [3/5, 4/5]]
   \<and> 2 * (1/1000) < [0, 25 :: real] ! 1 - [0, 25] ! 0
   \<and> custom rounding_libs (NdArray [9, 16]) (NdArray [2, 144]) ''mpmath'' 32 \<lparr>dps = 15\<rparr> =
       (Inr ([1/1000, 25], [638401/500000, 18/25]), \<lparr>dps = 32\<rparr>)
   \<and> sorted_wrt (<) [1/1000, 25 :: real] \<and> distinct [1/1000, 25 :: real]"
proof -
  have J: "Jacobi_matrix (sympy_sqrt exact_libs) [9, 16] [2, 144] = [[9, 12], [12, 16]]"
    using Jacobi_9_16 [of 2] by (simp add: exact_libs_def)
  have lib: "\<forall>v. sympy_simplify exact_libs v = v"
      "\<forall>v. 0 < v \<longrightarrow> sympy_sqrt exact_libs v \<noteq> 0"
      "\<forall>v. 0 < v \<longrightarrow> mp_sqrt rounding_libs 32 v \<noteq> 0"
    by (simp_all add: exact_libs_def rounding_libs_def)
  have run:
    "custom exact_libs (NdArray [9, 16]) (NdArray [2, 144]) ''sympy'' 32 \<lparr>dps = 15\<rparr> =
       (Inr ([0, 25], [32/25, 18/25]), \<lparr>dps = 15\<rparr>)"
    "custom rounding_libs (NdArray [9, 16]) (NdArray [2, 144]) ''mpmath'' 32 \<lparr>dps = 15\<rparr> =
       (Inr ([1/1000, 25], [638401/500000, 18/25]), \<lparr>dps = 32\<rparr>)"
    by (simp_all add: custom_def run_sympy_9_16 run_rounding_9_16)
  have gap: "\<forall>j. j + 1 < length (elems (NdArray [9, 16]))
      \<longrightarrow> 2 * (1/1000) < [0, 25 :: real] ! (j + 1) - [0, 25] ! j"
    by (auto simp: less_Suc_eq)
  have "sorted_wrt (<) [0, 25 :: real] \<and> distinct [0, 25 :: real]
      \<and> Golub_Welsch [[9, 12], [12, 16]] 2 [0, 25] [32/25, 18/25]"
    using nodes_strictly_ascending [where L = exact_libs and alpha = "NdArray [9, 16]"
        and beta = "NdArray [2, 144]" and p = 32 and mp = "\<lparr>dps = 15\<rparr>",
        OF _ _ well_formed_9_16]
      lib rational_9 sympy_solver_ok_9_16 [of 2] run(1) J
    by simp
  moreover have "sorted_wrt (<) [1/1000, 25 :: real] \<and> distinct [1/1000, 25 :: real]"
    using nodes_strictly_ascending [where L = rounding_libs and alpha = "NdArray [9, 16]"
        and beta = "NdArray [2, 144]" and p = 32 and mp = "\<lparr>dps = 15\<rparr>"
        and eps = "1/1000" and x = "[0, 25]" and V = "[[-4/5, 3/5], [3/5, 4/5]]",
        OF _ _ well_formed_9_16]
      lib(3) rounding_within_9_16 run(2) gap
    by simp
  ultimately show ?thesis
    using rational_9 sympy_solver_ok_9_16 [of 2] run rounding_within_9_16
      numpy_within_9_16 [of 2] run_numpy_9_16 [of 2]
    by (simp add: custom_def exact_libs_def table_eigenvects_def)
qed

text \<open>
  A solver of finite precision takes the off-diagonal entry \<open>10\<^sup>-\<^sup>2\<^sup>0\<close> of the Jacobi matrix
  \<open>[[1, 10\<^sup>-\<^sup>2\<^sup>0], [10\<^sup>-\<^sup>2\<^sup>0, 1]]\<close> for zero, as it is below the 16 digits of a double beside
  the diagonal entries, and reports the eigenvalue 1 twice: for the well-formed
  coefficients \<open>alpha = [1, 1]\<close>, \<open>beta = [1, 10\<^sup>-\<^sup>4\<^sup>0]\<close> the numpy backend returns two equal
  nodes. The exact eigenvalues \<open>1 - 10\<^sup>-\<^sup>2\<^sup>0\<close> and \<open>1 + 10\<^sup>-\<^sup>2\<^sup>0\<close> are distinct and agree to
  19 digits. The same happens in the mpmath backend at 32 decimal places with
  \<open>beta[1] = 10\<^sup>-\<^sup>8\<^sup>0\<close>.
\<close>

theorem equal_nodes_in_finite_precision:
  "length [1, 1 / 10 ^ 40 :: real] = length [1, 1 :: real]
   \<and> (0 :: real) < [1, 1 / 10 ^ 40] ! 1
   \<and> custom finite_precision_libs (NdArray [1, 1]) (NdArray [1, 1 / 10 ^ 40]) ''numpy'' 32
       \<lparr>dps = 15\<rparr> = (Inr ([1, 1], [1, 0]), \<lparr>dps = 15\<rparr>)
   \<and> (0 :: real) < [1, 1 / 10 ^ 80] ! 1
   \<and> custom finite_precision_libs (NdArray [1, 1]) (NdArray [1, 1 / 10 ^ 80]) ''mpmath'' 32
       \<lparr>dps = 15\<rparr> = (Inr ([1, 1], [1, 0]), \<lparr>dps = 32\<rparr>)
   \<and> \<not> distinct [1, 1 :: real] \<and> \<not> sorted_wrt (<) [1, 1 :: real]
   \<and> Jacobi_matrix (numpy_sqrt finite_precision_libs) [1, 1] [1, 1 / 10 ^ 40] =
       [[1, 1 / 10 ^ 20], [1 / 10 ^ 20, 1]]
   \<and> eigenvector [[1, 1 / 10 ^ 20], [1 / 10 ^ 20, 1]] (1 - 1 / 10 ^ 20) [1, -1]
   \<and> eigenvector [[1, 1 / 10 ^ 20], [1 / 10 ^ 20, 1]] (1 + 1 / 10 ^ 20) [1, 1]"
proof -
  have J: "Jacobi_matrix (numpy_sqrt finite_precision_libs) [1, 1] [1, 1 / 10 ^ 40] =
      [[1, 1 / 10 ^ 20], [1 / 10 ^ 20, 1]]"
    using Jacobi_close by (simp add: finite_precision_libs_def exact_libs_def)
  have runs:
    "custom finite_precision_libs (NdArray [1, 1]) (NdArray [1, 1 / 10 ^ 40]) ''numpy'' 32
       \<lparr>dps = 15\<rparr> = (Inr ([1, 1], [1, 0]), \<lparr>dps = 15\<rparr>)"
    "custom finite_precision_libs (NdArray [1, 1]) (NdArray [1, 1 / 10 ^ 80]) ''mpmath'' 32
       \<lparr>dps = 15\<rparr> = (Inr ([1, 1], [1, 0]), \<lparr>dps = 32\<rparr>)"
    using run_finite_numpy run_finite_mpmath [of "\<lparr>dps = 15\<rparr>"]
    by (simp_all add: custom_def)
  show ?thesis
    using J runs eigenvectors_close by simp
qed

text \<open>
  C3, as the code has it. Let the coefficients be well formed as in C2 with, in addition,
  \<open>beta[0] > 0\<close>. The exact backend, under its assertions and with a correct
  \<open>eigenvects()\<close>, returns \<open>n\<close> strictly positive weights that add up to \<open>beta[0]\<close>. For the
  mpmath and the numpy backend the weights \<open>beta[0] V[0, j]\<^sup>2\<close> of the exact rule are
  strictly positive; when the solver is within \<open>eps\<close> of an exact eigen-decomposition,
  each returned weight is within \<open>beta[0] eps (3 + eps)\<close> of its exact weight, so it is
  positive when the exact weight is larger than that, and the sum of the \<open>n\<close> weights is
  within \<open>n beta[0] eps (3 + eps)\<close> of \<open>beta[0]\<close>; with \<open>eps = 0\<close> the weights are positive and
  add up to \<open>beta[0]\<close>.
\<close>

theorem weights_positive_sum_beta0:
  assumes ne: "elems alpha \<noteq> []" and len: "length (elems beta) = length (elems alpha)"
      and wf: "\<forall>k. 1 \<le> k \<and> k < length (elems alpha) \<longrightarrow> 0 < elems beta ! k"
      and b0: "0 < hd (elems beta)"
  shows "(isinstance_Rational L (hd (elems alpha))
          \<and> (\<forall>v. sympy_simplify L v = v)
          \<and> (\<forall>v. 0 < v \<longrightarrow> sympy_sqrt L v \<noteq> 0)
          \<and> sympy_solver_ok L (elems alpha) (elems beta)
          \<longrightarrow> (\<exists>x w. custom L alpha beta ''sympy'' p mp = (Inr (x, w), mp)
                \<and> length w = length (elems alpha) \<and> (\<forall>y \<in> set w. 0 < y)
                \<and> sum_list w = hd (elems beta)))
       \<and> ((\<forall>v. 0 < v \<longrightarrow> mp_sqrt L p v \<noteq> 0)
          \<and> mpmath_solver_within L p (elems alpha) (elems beta) eps x V
          \<longrightarrow> ((\<forall>j<length (elems alpha). 0 < hd (elems beta) * (V ! 0 ! j)\<^sup>2)
               \<and> (\<exists>xs ws. custom L alpha beta ''mpmath'' p mp = (Inr (xs, ws), mp\<lparr>dps := p\<rparr>)
                    \<and> length ws = length (elems alpha)
                    \<and> \<bar>sum_list ws - hd (elems beta)\<bar>
                         \<le> real (length (elems alpha)) * (hd (elems beta) * eps * (3 + eps))
                    \<and> (\<forall>j<length (elems alpha).
                          \<bar>ws ! j - hd (elems beta) * (V ! 0 ! j)\<^sup>2\<bar>
                             \<le> hd (elems beta) * eps * (3 + eps)
                          \<and> (hd (elems beta) * eps * (3 + eps)
                               < hd (elems beta) * (V ! 0 ! j)\<^sup>2 \<longrightarrow> 0 < ws ! j))
                    \<and> (eps = 0 \<longrightarrow> sum_list ws = hd (elems beta)
                          \<and> (\<forall>y \<in> set ws. 0 < y)))))
       \<and> (isinstance_ndarray alpha \<and> isinstance_ndarray beta
          \<and> (\<forall>v. 0 < v \<longrightarrow> numpy_sqrt L v \<noteq> 0)
          \<and> numpy_solver_within L (elems alpha) (elems beta) eps x V
          \<longrightarrow> ((\<forall>j<length (elems alpha). 0 < hd (elems beta) * (V ! 0 ! j)\<^sup>2)
               \<and> (\<exists>xs ws. custom L alpha beta ''numpy'' p mp = (Inr (xs, ws), mp)
                    \<and> length ws = length (elems alpha)
                    \<and> \<bar>sum_list ws - hd (elems beta)\<bar>
                         \<le> real (length (elems alpha)) * (hd (elems beta) * eps * (3 + eps))
                    \<and> (\<forall>j<length (elems alpha).
                          \<bar>ws ! j - hd (elems beta) * (V ! 0 ! j)\<^sup>2\<bar>
                             \<le> hd (elems beta) * eps * (3 + eps)
                          \<and> (hd (elems beta) * eps * (3 + eps)
                               < hd (elems beta) * (V ! 0 ! j)\<^sup>2 \<longrightarrow> 0 < ws ! j))
                    \<and> (eps = 0 \<longrightarrow> sum_list ws = hd (elems beta)
                          \<and> (\<forall>y \<in> set ws. 0 < y)))))"
    (is "(?a1 \<longrightarrow> ?b1) \<and> (?a2 \<longrightarrow> ?b2) \<and> (?a3 \<longrightarrow> ?b3)")
proof -
  obtain a0 as where al: "elems alpha = a0 # as"
    using ne by (cases "elems alpha") auto
  have ab: "\<bar>hd (elems beta)\<bar> = hd (elems beta)" using b0 by simp
  have 1: "?a1 \<longrightarrow> ?b1"
  proof (rule impI)
    assume a: ?a1
    then have rat: "isinstance_Rational L a0" by (simp add: al)
    have off: "\<forall>k. 1 \<le> k \<and> k < length (elems alpha)
        \<longrightarrow> sympy_sqrt L (elems beta ! k) \<noteq> 0"
      using a wf by simp
    have simple: "\<forall>item \<in> set (eigenvects L
        (Jacobi_matrix (sympy_sqrt L) (elems alpha) (elems beta))). fst (snd item) = 1"
      using Jacobi_reported_simple [of "elems alpha" "sympy_sqrt L" "elems beta"] off a
      by (auto simp: sympy_solver_ok_def)
    from sympy_backend [OF _ al rat len _ simple] a off b0 obtain xx ww
      where run: "gauss_from_coefficients_sympy L alpha beta = Inr (xx, ww)"
        and GW: "Golub_Welsch (Jacobi_matrix (sympy_sqrt L) (elems alpha) (elems beta))
                   (hd (elems beta)) xx ww"
        and total: "sum_list ww = hd (elems beta)"
        and pos: "\<forall>y \<in> set ww. 0 < y"
      by blast
    have "length ww = length (elems alpha)"
      using GW by (simp add: Golub_Welsch_def Jacobi_matrix_length)
    moreover have "custom L alpha beta ''sympy'' p mp = (Inr (xx, ww), mp)"
      using run by (simp add: custom_def)
    ultimately show ?b1 using total pos by blast
  qed
  have rule: "(\<forall>j<length (elems alpha). 0 < hd (elems beta) * (V ! 0 ! j)\<^sup>2)
      \<and> length ws = length (elems alpha)
      \<and> \<bar>sum_list ws - hd (elems beta)\<bar>
           \<le> real (length (elems alpha)) * (hd (elems beta) * eps * (3 + eps))
      \<and> (\<forall>j<length (elems alpha).
            \<bar>ws ! j - hd (elems beta) * (V ! 0 ! j)\<^sup>2\<bar> \<le> hd (elems beta) * eps * (3 + eps)
            \<and> (hd (elems beta) * eps * (3 + eps) < hd (elems beta) * (V ! 0 ! j)\<^sup>2
                 \<longrightarrow> 0 < ws ! j))
      \<and> (eps = 0 \<longrightarrow> sum_list ws = hd (elems beta) \<and> (\<forall>y \<in> set ws. 0 < y))"
    if sys: "orthonormal_eigensystem (Jacobi_matrix sq (elems alpha) (elems beta)) x V"
      and off: "\<And>k. 1 \<le> k \<Longrightarrow> k < length (elems alpha) \<Longrightarrow> sq (elems beta ! k) \<noteq> 0"
      and lens: "length xs = length (elems alpha)" "length ws = length (elems alpha)"
      and near: "\<forall>j<length (elems alpha). \<bar>xs ! j - x ! j\<bar> \<le> eps
                   \<and> \<bar>ws ! j - hd (elems beta) * (V ! 0 ! j)\<^sup>2\<bar>
                        \<le> \<bar>hd (elems beta)\<bar> * eps * (3 + eps)"
    for sq xs ws
  proof -
    note R = near_rule [OF sys ne lens near]
    have exact: "sum_list ws = hd (elems beta) \<and> (\<forall>y \<in> set ws. 0 < y)" if "eps = 0"
      using R(6) [OF that] eigensystem_rule(2) [OF sys ne, of "hd (elems beta)"]
        eigensystem_rule(4) [OF sys ne off b0]
      by simp
    show ?thesis
      using R(1) R(3) [OF off b0] R(4) near lens(2) exact by (simp add: ab)
  qed
  have 2: "?a2 \<longrightarrow> ?b2"
  proof (rule impI)
    assume a: ?a2
    then have w: "mpmath_solver_within L p (elems alpha) (elems beta) eps x V" by simp
    have off: "\<And>k. 1 \<le> k \<Longrightarrow> k < length (elems alpha)
        \<Longrightarrow> mp_sqrt L p (elems beta ! k) \<noteq> 0"
      using a wf by simp
    have sys: "orthonormal_eigensystem
        (Jacobi_matrix (mp_sqrt L p) (elems alpha) (elems beta)) x V"
      using w by (simp add: mpmath_solver_within_def)
    from mpmath_near [OF ne len w, of mp] obtain xs ws
      where run: "gauss_from_coefficients_mpmath L alpha beta p mp =
                    (Inr (xs, ws), mp\<lparr>dps := p\<rparr>)"
        and lens: "length xs = length (elems alpha)" "length ws = length (elems alpha)"
        and near: "\<forall>j<length (elems alpha). \<bar>xs ! j - x ! j\<bar> \<le> eps
                     \<and> \<bar>ws ! j - hd (elems beta) * (V ! 0 ! j)\<^sup>2\<bar>
                          \<le> \<bar>hd (elems beta)\<bar> * eps * (3 + eps)"
      by blast
    have c: "custom L alpha beta ''mpmath'' p mp = (Inr (xs, ws), mp\<lparr>dps := p\<rparr>)"
      using run by (simp add: custom_def)
    show ?b2 using c rule [OF sys off lens near] by blast
  qed
  have 3: "?a3 \<longrightarrow> ?b3"
  proof (rule impI)
    assume a: ?a3
    then have w: "numpy_solver_within L (elems alpha) (elems beta) eps x V"
      and arr: "isinstance_ndarray alpha" "isinstance_ndarray beta" by simp_all
    have off: "\<And>k. 1 \<le> k \<Longrightarrow> k < length (elems alpha)
        \<Longrightarrow> numpy_sqrt L (elems beta ! k) \<noteq> 0"
      using a wf by simp
    have sys: "orthonormal_eigensystem
        (Jacobi_matrix (numpy_sqrt L) (elems alpha) (elems beta)) x V"
      using w by (simp add: numpy_solver_within_def)
    from numpy_near [OF ne len arr w] obtain xs ws
      where run: "gauss_from_coefficients_numpy L alpha beta = Inr (xs, ws)"
        and lens: "length xs = length (elems alpha)" "length ws = length (elems alpha)"
        and near: "\<forall>j<length (elems alpha). \<bar>xs ! j - x ! j\<bar> \<le> eps
                     \<and> \<bar>ws ! j - hd (elems beta) * (V ! 0 ! j)\<^sup>2\<bar>
                          \<le> \<bar>hd (elems beta)\<bar> * eps * (3 + eps)"
      by blast
    have c: "custom L alpha beta ''numpy'' p mp = (Inr (xs, ws), mp)"
      using run by (simp add: custom_def)
    show ?b3 using c rule [OF sys off lens near] by blast
  qed
  show ?thesis by (intro conjI 1 2 3)
qed

theorem weights_positive_sum_beta0_witness:
  "mpmath_solver_within exact_libs 32 [9, 16] [2, 144] 0 [0, 25] [[-4/5, 3/5], [3/5, 4/5]]
   \<and> (0 :: real) < [2, 144] ! 1 \<and> (0 :: real) < hd [2, 144]
   \<and> isinstance_Rational exact_libs 9
   \<and> sympy_solver_ok exact_libs [9, 16] [2, 144]
   \<and> custom exact_libs (NdArray [9, 16]) (NdArray [2, 144]) ''sympy'' 32 \<lparr>dps = 15\<rparr> =
       (Inr ([0, 25], [32/25, 18/25]), \<lparr>dps = 15\<rparr>)
   \<and> isinstance_ndarray (NdArray [9, 16]) \<and> isinstance_ndarray (NdArray [2, 144])
   \<and> numpy_solver_within exact_libs [9, 16] [2, 144] 0 [0, 25] [[-4/5, 3/5], [3/5, 4/5]]
   \<and> custom exact_libs (NdArray [9, 16]) (NdArray [2, 144]) ''numpy'' 32 \<lparr>dps = 15\<rparr> =
       (Inr ([0, 25], [32/25, 18/25]), \<lparr>dps = 15\<rparr>)
   \<and> custom exact_libs (NdArray [9, 16]) (NdArray [2, 144]) ''mpmath'' 32 \<lparr>dps = 15\<rparr> =
       (Inr ([0, 25], [32/25, 18/25]), \<lparr>dps = 32\<rparr>)
   \<and> sum_list [32/25, 18/25] = (2 :: real)
   \<and> (0 :: real) < 32/25 \<and> (0 :: real) < 18/25
   \<and> mpmath_solver_within rounding_libs 32 [9, 16] [2, 144] (1/1000) [0, 25]
       [[-4/5, 3/5], [3/5, 4/5]]
   \<and> custom rounding_libs (NdArray [9, 16]) (NdArray [2, 144]) ''mpmath'' 32 \<lparr>dps = 15\<rparr> =
       (Inr ([1/1000, 25], [638401/500000, 18/25]), \<lparr>dps = 32\<rparr>)
   \<and> \<bar>sum_list [638401/500000, 18/25] - 2\<bar> \<le> 2 * (2 * (1/1000) * (3 + 1/1000 :: real))"
proof -
  have lib: "\<forall>v. 0 < v \<longrightarrow> mp_sqrt exact_libs 32 v \<noteq> 0"
      "\<forall>v. 0 < v \<longrightarrow> mp_sqrt rounding_libs 32 v \<noteq> 0"
    by (simp_all add: exact_libs_def rounding_libs_def)
  have run:
    "custom exact_libs (NdArray [9, 16]) (NdArray [2, 144]) ''mpmath'' 32 \<lparr>dps = 15\<rparr> =
       (Inr ([0, 25], [32/25, 18/25]), \<lparr>dps = 32\<rparr>)"
    "custom rounding_libs (NdArray [9, 16]) (NdArray [2, 144]) ''mpmath'' 32 \<lparr>dps = 15\<rparr> =
       (Inr ([1/1000, 25], [638401/500000, 18/25]), \<lparr>dps = 32\<rparr>)"
    by (simp_all add: custom_def run_mpmath_9_16 run_rounding_9_16)
  have "sum_list [32/25, 18/25] = (2 :: real) \<and> (0 :: real) < 32/25 \<and> (0 :: real) < 18/25"
    using weights_positive_sum_beta0 [where L = exact_libs and alpha = "NdArray [9, 16]"
        and beta = "NdArray [2, 144]" and p = 32 and mp = "\<lparr>dps = 15\<rparr>"
        and eps = 0 and x = "[0, 25]" and V = "[[-4/5, 3/5], [3/5, 4/5]]",
        OF _ _ well_formed_9_16]
      lib(1) mpmath_within_9_16 [of 32 2] run(1)
    by simp
  moreover have "\<bar>sum_list [638401/500000, 18/25] - 2\<bar>
      \<le> 2 * (2 * (1/1000) * (3 + 1/1000 :: real))"
    using weights_positive_sum_beta0 [where L = rounding_libs and alpha = "NdArray [9, 16]"
        and beta = "NdArray [2, 144]" and p = 32 and mp = "\<lparr>dps = 15\<rparr>"
        and eps = "1/1000" and x = "[0, 25]" and V = "[[-4/5, 3/5], [3/5, 4/5]]",
        OF _ _ well_formed_9_16]
      lib(2) rounding_within_9_16 run(2)
    by simp
  ultimately show ?thesis
    using mpmath_within_9_16 [of 32 2] rounding_within_9_16 run rational_9
      sympy_solver_ok_9_16 [of 2] numpy_within_9_16 [of 2] run_sympy_9_16 [of 2]
      run_numpy_9_16 [of 2]
    by (simp add: custom_def)
qed

text \<open>
  With \<open>beta[0] = 0\<close> and \<open>beta[1] = 144 > 0\<close> the coefficients are well formed as C3 words
  it, the solvers are exact, and both weights returned are 0 in every backend.
\<close>

theorem weights_positive_counterexample:
  "isinstance_Rational exact_libs 9
   \<and> sympy_solver_ok exact_libs [9, 16] [0, 144]
   \<and> mpmath_solver_within exact_libs 32 [9, 16] [0, 144] 0 [0, 25] [[-4/5, 3/5], [3/5, 4/5]]
   \<and> numpy_solver_within exact_libs [9, 16] [0, 144] 0 [0, 25] [[-4/5, 3/5], [3/5, 4/5]]
   \<and> (0 :: real) < [0, 144] ! 1
   \<and> custom exact_libs (NdArray [9, 16]) (NdArray [0, 144]) ''sympy'' 32 \<lparr>dps = 15\<rparr> =
       (Inr ([0, 25], [0, 0]), \<lparr>dps = 15\<rparr>)
   \<and> custom exact_libs (NdArray [9, 16]) (NdArray [0, 144]) ''mpmath'' 32 \<lparr>dps = 15\<rparr> =
       (Inr ([0, 25], [0, 0]), \<lparr>dps = 32\<rparr>)
   \<and> custom exact_libs (NdArray [9, 16]) (NdArray [0, 144]) ''numpy'' 32 \<lparr>dps = 15\<rparr> =
       (Inr ([0, 25], [0, 0]), \<lparr>dps = 15\<rparr>)"
  using rational_9 sympy_solver_ok_9_16 [of 0] mpmath_within_9_16 [of 32 0]
    numpy_within_9_16 [of 0]
  by (simp add: custom_def run_sympy_9_16 run_mpmath_9_16 run_numpy_9_16)

section \<open>The multiplicity assertion of the exact backend\<close>








end
